theory Spec2Isabelle
  imports Main
begin

section \<open>Data model\<close>

text \<open>
  The catalog of \<^verbatim>\<open>library.go\<close>: the Go structs \<^verbatim>\<open>Book\<close> and \<^verbatim>\<open>BookFile\<close>, the
  tables of \<^verbatim>\<open>initialSchema\<close>, and the operations of \<^verbatim>\<open>Library\<close> on them.

  The declarations of \<^verbatim>\<open>Book\<close> and \<^verbatim>\<open>BookFile\<close> are not part of \<^verbatim>\<open>library.go\<close>;
  their fields are the ones \<^verbatim>\<open>library.go\<close> reads and writes. \<^verbatim>\<open>Book.Id\<close> is
  \<open>BookId\<close> and \<^verbatim>\<open>BookFile.Id\<close> is \<open>FileId\<close> here (\<open>Id\<close> is the identity relation
  of HOL). Identifiers are \<^verbatim>\<open>int64\<close> in Go and \<open>int\<close> here: the store hands out row
  identifiers, and no arithmetic of the program is done on them. Times are opaque
  integers.
\<close>

record BookFile =
  FileId :: int
  Extension :: string
  OriginalFilename :: string
  CurrentFilename :: string
  FileSize :: int
  FileMtime :: int
  Hash :: string
  RegexpName :: string
  Source :: string
  Tags :: "string list"

record Book =
  BookId :: int
  Series :: string
  Title :: string
  Authors :: "string list"
  Files :: "BookFile list"

subsection \<open>The tables of the schema\<close>

text \<open>
  One record per table of \<^verbatim>\<open>initialSchema\<close>, with the columns the program uses (the
  \<^verbatim>\<open>created_on\<close> and \<^verbatim>\<open>updated_on\<close> defaults, \<^verbatim>\<open>template_override\<close> and the
  \<^verbatim>\<open>filename\<close> column of the full-text table are never read or written by
  \<^verbatim>\<open>library.go\<close>). A table is the list of its rows in insertion order.
\<close>

record books_row =
  books_id :: int
  books_series :: string
  books_title :: string

record files_row =
  files_id :: int
  files_book_id :: int
  files_extension :: string
  files_original_filename :: string
  files_filename :: string
  files_file_size :: int
  files_file_mtime :: int
  files_hash :: string
  files_regexp_name :: string
  files_source :: string

record authors_row =
  authors_id :: int
  authors_name :: string

record books_authors_row =
  ba_id :: int
  ba_book_id :: int
  ba_author_id :: int

record tags_row =
  tags_id :: int
  tags_name :: string

record files_tags_row =
  ft_id :: int
  ft_file_id :: int
  ft_tag_id :: int

record fts_row =
  docid :: int
  fts_author :: string
  fts_series :: string
  fts_title :: string
  fts_extension :: string
  fts_tags :: string
  fts_source :: string

record store =
  books :: "books_row list"
  files :: "files_row list"
  authors :: "authors_row list"
  books_authors :: "books_authors_row list"
  tags :: "tags_row list"
  files_tags :: "files_tags_row list"
  books_fts :: "fts_row list"

subsection \<open>Call sites, failures and errors\<close>

text \<open>
  Every call of the program into the store or the file system that returns an error
  the program looks at is a \<open>site\<close>. The environment says which calls fail
  (\<open>fails\<close>), and at which row an iteration over a result set breaks off
  (\<open>cut\<close>: \<open>Some k\<close> makes the call of \<^verbatim>\<open>rows.Next()\<close> after \<open>k\<close> rows fail, so that
  \<^verbatim>\<open>rows.Err()\<close> is not nil afterwards). The sites of \<^verbatim>\<open>insertAuthor\<close> and
  \<^verbatim>\<open>insertTag\<close> carry the name they are called with.
\<close>

datatype site =
    Import_Begin | Dup_Query | Dup_Rows
  | Title_Query | Title_Rows | Title_Scan
  | Authors_Query | Authors_Rows | Authors_Scan
  | Book_Insert | Book_LastId
  | Author_Select string | Author_Insert string | Author_LastId string | Author_Link string
  | File_Insert | File_LastId
  | Tag_Select string | Tag_Insert string | Tag_LastId string | Tag_Link string
  | Fts_Insert | Fts_Query | Fts_Rows | Fts_Scan | Fts_Update
  | Import_Commit
  | Search_Query | Search_Rows
  | Hydrate_Begin | Books_Query | Books_Rows | Books_Scan | Hydrate_Commit
  | Tags_Query | Tags_Rows | Tags_Scan
  | FileIds_Query | FileIds_Rows | FileIds_Scan
  | Files_Query | Files_Rows | Files_Scan
  | Fs_MkdirAll | Fs_Rename | Fs_Open | Fs_Stat | Fs_Create | Fs_Copy | Fs_Close | Fs_Remove

text \<open>
  The errors of the program: \<open>Failed\<close> is the error a failing call returns,
  \<open>ConstraintError\<close> the store's refusal of a row that breaks a \<^verbatim>\<open>unique\<close> constraint or
  a key, \<open>ErrorNew\<close> is \<^verbatim>\<open>errors.New\<close>, \<open>DuplicateBook\<close> and \<open>NotInFTS\<close> are the two
  \<^verbatim>\<open>errors.Errorf\<close> messages with their identifier, and \<open>Wrap\<close> is \<^verbatim>\<open>errors.Wrap\<close>.
\<close>

datatype error =
    Failed site
  | ConstraintError string
  | ErrorNew string
  | DuplicateBook int
  | NotInFTS int
  | Wrap error string

text \<open>\<^verbatim>\<open>errors.Wrap(err, msg)\<close> and \<^verbatim>\<open>errors.Wrapf\<close>: nil when \<^verbatim>\<open>err\<close> is nil.\<close>

fun wrap :: "error option \<Rightarrow> string \<Rightarrow> error option" where
  "wrap None msg = None"
| "wrap (Some e) msg = Some (Wrap e msg)"

text \<open>
  The environment of a run. \<open>fts_match\<close> is the full-text index's \<^verbatim>\<open>MATCH\<close> (the
  query grammar belongs to the store), and \<open>range_order\<close> is the order in which Go's
  \<^verbatim>\<open>range\<close> visits the entries of a map, which the language leaves open.
\<close>

record env =
  fails :: "site \<Rightarrow> bool"
  cut :: "site \<Rightarrow> nat option"
  fts_match :: "string \<Rightarrow> fts_row \<Rightarrow> bool"
  range_order :: "(int \<times> string list) list \<Rightarrow> (int \<times> string list) list"

text \<open>The rows an iteration delivers, and whether \<^verbatim>\<open>rows.Err()\<close> is set after it.\<close>

definition iter :: "env \<Rightarrow> site \<Rightarrow> 'a list \<Rightarrow> 'a list \<times> bool" where
  "iter e st rows =
     (case cut e st of
        None \<Rightarrow> (rows, False)
      | Some k \<Rightarrow> if k \<le> length rows then (take k rows, True) else (rows, False))"

text \<open>How a transaction of the program ends.\<close>

datatype tx_end = NoTx | RolledBack | Committed | CommitFailed | LeftOpen

subsection \<open>Go maps from identifiers to slices\<close>

text \<open>
  A \<^verbatim>\<open>map[int64][]T\<close> is an association list with its keys in the order of their
  first insertion. Reading a missing key gives the nil slice.
\<close>

fun append_at :: "int \<Rightarrow> 'v \<Rightarrow> (int \<times> 'v list) list \<Rightarrow> (int \<times> 'v list) list" where
  "append_at k v [] = [(k, [v])]"
| "append_at k v ((k', vs) # m) =
     (if k' = k then (k', vs @ [v]) # m else (k', vs) # append_at k v m)"

definition group_rows :: "(int \<times> 'v) list \<Rightarrow> (int \<times> 'v list) list" where
  "group_rows rows = fold (\<lambda>(k, v) m. append_at k v m) rows []"

definition lookup :: "(int \<times> 'v list) list \<Rightarrow> int \<Rightarrow> 'v list" where
  "lookup m k = (case map_of m k of None \<Rightarrow> [] | Some vs \<Rightarrow> vs)"

subsection \<open>Statements of the store\<close>

text \<open>
  A new row of a table with an \<^verbatim>\<open>integer primary key\<close> gets the largest identifier
  of the table plus one, and 1 in an empty table.
\<close>

definition next_id :: "int list \<Rightarrow> int" where
  "next_id ids = (case ids of [] \<Rightarrow> 1 | x # xs \<Rightarrow> fold max xs x + 1)"

text \<open>\<^verbatim>\<open>select id from files where hash=?\<close>\<close>

definition select_file_ids_by_hash :: "store \<Rightarrow> string \<Rightarrow> int list" where
  "select_file_ids_by_hash s h = map files_id (filter (\<lambda>f. files_hash f = h) (files s))"

text \<open>\<^verbatim>\<open>SELECT id FROM books WHERE title = ?\<close>\<close>

definition select_book_ids_by_title :: "store \<Rightarrow> string \<Rightarrow> int list" where
  "select_book_ids_by_title s t = map books_id (filter (\<lambda>b. books_title b = t) (books s))"

text \<open>
  \<^verbatim>\<open>SELECT ba.book_id, a.name FROM books_authors ba JOIN authors a ON ba.author_id = a.id
  WHERE ba.book_id IN (...) ORDER BY ba.id\<close>: the links of the books asked for, by link
  identifier, each with the names of the author rows it joins.
\<close>

definition author_names :: "store \<Rightarrow> books_authors_row \<Rightarrow> string list" where
  "author_names s l = map authors_name (filter (\<lambda>a. authors_id a = ba_author_id l) (authors s))"

definition select_authors_by_book_ids :: "store \<Rightarrow> int list \<Rightarrow> (int \<times> string) list" where
  "select_authors_by_book_ids s ids =
     concat (map (\<lambda>l. map (\<lambda>n. (ba_book_id l, n)) (author_names s l))
       (sort_key ba_id (filter (\<lambda>l. ba_book_id l \<in> set ids) (books_authors s))))"

text \<open>The same query over \<^verbatim>\<open>files_tags\<close> and \<^verbatim>\<open>tags\<close>, \<^verbatim>\<open>ORDER BY ft.id\<close>.\<close>

definition tag_names :: "store \<Rightarrow> files_tags_row \<Rightarrow> string list" where
  "tag_names s l = map tags_name (filter (\<lambda>t. tags_id t = ft_tag_id l) (tags s))"

definition select_tags_by_file_ids :: "store \<Rightarrow> int list \<Rightarrow> (int \<times> string) list" where
  "select_tags_by_file_ids s ids =
     concat (map (\<lambda>l. map (\<lambda>n. (ft_file_id l, n)) (tag_names s l))
       (sort_key ft_id (filter (\<lambda>l. ft_file_id l \<in> set ids) (files_tags s))))"

text \<open>\<^verbatim>\<open>strings.Join\<close>\<close>

fun Join :: "string list \<Rightarrow> string \<Rightarrow> string" where
  "Join [] sep = []"
| "Join [x] sep = x"
| "Join (x # y # ys) sep = x @ sep @ Join (y # ys) sep"

section \<open>Identity resolution\<close>

text \<open>
  \<^verbatim>\<open>getAuthorsByBookIds\<close>: the author names of each book, grouped by book in the
  order of the rows. The error of \<^verbatim>\<open>rows.Err()\<close> is not looked at: a broken
  iteration gives the rows read so far.
\<close>

definition getAuthorsByBookIds :: "env \<Rightarrow> store \<Rightarrow> int list \<Rightarrow> error + (int \<times> string list) list" where
  "getAuthorsByBookIds e tx ids =
     (if ids = [] then Inr []
      else if fails e Authors_Query then Inl (Failed Authors_Query)
      else let rows = fst (iter e Authors_Rows (select_authors_by_book_ids tx ids)) in
        if rows \<noteq> [] \<and> fails e Authors_Scan then Inl (Failed Authors_Scan)
        else Inr (group_rows rows))"

text \<open>The closure \<^verbatim>\<open>authorsEqual\<close>: the lengths, then the elements one by one.\<close>

fun all_equal :: "(string \<times> string) list \<Rightarrow> bool" where
  "all_equal [] = True"
| "all_equal ((x, y) # ps) = (if x \<noteq> y then False else all_equal ps)"

definition authorsEqual :: "string list \<Rightarrow> string list \<Rightarrow> bool" where
  "authorsEqual a b = (if length a \<noteq> length b then False else all_equal (zip a b))"

text \<open>
  \<^verbatim>\<open>getBookIdByTitleAndAuthors\<close>: the identifiers of the books with the title, their
  authors, and the first entry of the author map, in the order \<^verbatim>\<open>range\<close> visits it,
  whose names equal the names asked for.
\<close>

definition getBookIdByTitleAndAuthors :: "env \<Rightarrow> store \<Rightarrow> string \<Rightarrow> string list \<Rightarrow> error + (int \<times> bool)" where
  "getBookIdByTitleAndAuthors e tx title as =
     (if fails e Title_Query then Inl (Wrap (Failed Title_Query) ''get book by title'')
      else let ids = fst (iter e Title_Rows (select_book_ids_by_title tx title)) in
        if ids \<noteq> [] \<and> fails e Title_Scan then Inl (Wrap (Failed Title_Scan) ''Get book ID from title'')
        else case getAuthorsByBookIds e tx ids of
          Inl err \<Rightarrow> Inl (Wrap err ''get authors for books'')
        | Inr authorMap \<Rightarrow>
            (case find (\<lambda>(bookId, authorNames). authorsEqual as authorNames) (range_order e authorMap) of
               Some (bookId, authorNames) \<Rightarrow> Inr (bookId, True)
             | None \<Rightarrow> Inr (0, False)))"

section \<open>Import\<close>

text \<open>
  \<^verbatim>\<open>insertAuthor\<close>: the author's identifier by name, a new row when there is none
  (\<^verbatim>\<open>sql.ErrNoRows\<close>), then the link, which \<^verbatim>\<open>insert or ignore\<close> leaves out when the
  pair is linked already.
\<close>

definition link_author :: "env \<Rightarrow> store \<Rightarrow> string \<Rightarrow> int \<Rightarrow> int \<Rightarrow> error + store" where
  "link_author e tx author bookId authorId =
     (if fails e (Author_Link author) then Inl (Failed (Author_Link author))
      else if \<exists>l \<in> set (books_authors tx). ba_book_id l = bookId \<and> ba_author_id l = authorId then Inr tx
      else Inr (tx\<lparr>books_authors := books_authors tx @
             [\<lparr>ba_id = next_id (map ba_id (books_authors tx)), ba_book_id = bookId, ba_author_id = authorId\<rparr>]\<rparr>))"

definition insertAuthor :: "env \<Rightarrow> store \<Rightarrow> string \<Rightarrow> Book \<Rightarrow> error + store" where
  "insertAuthor e tx author book =
     (if fails e (Author_Select author) then Inl (Failed (Author_Select author))
      else case map authors_id (filter (\<lambda>a. authors_name a = author) (authors tx)) of
        authorId # _ \<Rightarrow> link_author e tx author (BookId book) authorId
      | [] \<Rightarrow>
          if fails e (Author_Insert author) then Inl (Failed (Author_Insert author))
          else let authorId = next_id (map authors_id (authors tx));
                   tx1 = tx\<lparr>authors := authors tx @ [\<lparr>authors_id = authorId, authors_name = author\<rparr>]\<rparr> in
            if fails e (Author_LastId author) then Inl (Failed (Author_LastId author))
            else link_author e tx1 author (BookId book) authorId)"

text \<open>The loop of \<^verbatim>\<open>ImportBook\<close> over \<^verbatim>\<open>book.Authors\<close>.\<close>

fun insertAuthors :: "env \<Rightarrow> store \<Rightarrow> string list \<Rightarrow> Book \<Rightarrow> error + store" where
  "insertAuthors e tx [] book = Inr tx"
| "insertAuthors e tx (author # rest) book =
     (case insertAuthor e tx author book of
        Inl err \<Rightarrow> Inl (Wrap err (''inserting author '' @ author))
      | Inr tx1 \<Rightarrow> insertAuthors e tx1 rest book)"

text \<open>\<^verbatim>\<open>insertTag\<close> and the loop over the file's tags.\<close>

definition link_tag :: "env \<Rightarrow> store \<Rightarrow> string \<Rightarrow> int \<Rightarrow> int \<Rightarrow> error + store" where
  "link_tag e tx tag fileId tagId =
     (if fails e (Tag_Link tag) then Inl (Failed (Tag_Link tag))
      else if \<exists>l \<in> set (files_tags tx). ft_file_id l = fileId \<and> ft_tag_id l = tagId then Inr tx
      else Inr (tx\<lparr>files_tags := files_tags tx @
             [\<lparr>ft_id = next_id (map ft_id (files_tags tx)), ft_file_id = fileId, ft_tag_id = tagId\<rparr>]\<rparr>))"

definition insertTag :: "env \<Rightarrow> store \<Rightarrow> string \<Rightarrow> BookFile \<Rightarrow> error + store" where
  "insertTag e tx tag bf =
     (if fails e (Tag_Select tag) then Inl (Failed (Tag_Select tag))
      else case map tags_id (filter (\<lambda>t. tags_name t = tag) (tags tx)) of
        tagId # _ \<Rightarrow> link_tag e tx tag (FileId bf) tagId
      | [] \<Rightarrow>
          if fails e (Tag_Insert tag) then Inl (Failed (Tag_Insert tag))
          else let tagId = next_id (map tags_id (tags tx));
                   tx1 = tx\<lparr>tags := tags tx @ [\<lparr>tags_id = tagId, tags_name = tag\<rparr>]\<rparr> in
            if fails e (Tag_LastId tag) then Inl (Failed (Tag_LastId tag))
            else link_tag e tx1 tag (FileId bf) tagId)"

fun insertTags :: "env \<Rightarrow> store \<Rightarrow> string list \<Rightarrow> BookFile \<Rightarrow> error + store" where
  "insertTags e tx [] bf = Inr tx"
| "insertTags e tx (tag # rest) bf =
     (case insertTag e tx tag bf of
        Inl err \<Rightarrow> Inl (Wrap err (''inserting tag '' @ tag))
      | Inr tx1 \<Rightarrow> insertTags e tx1 rest bf)"

text \<open>
  \<^verbatim>\<open>indexBookInSearch\<close>. It returns the error and the transaction's state. Where the
  iteration over the existing document breaks, the function returns the variable
  \<^verbatim>\<open>err\<close> of the query before it, which is nil there.
\<close>

definition indexBookInSearch :: "env \<Rightarrow> store \<Rightarrow> Book \<Rightarrow> bool \<Rightarrow> error option \<times> store" where
  "indexBookInSearch e tx book createNew =
     (if length (Files book) \<noteq> 1 then (Some (ErrorNew ''Book to index must contain only one file''), tx)
      else let bf = Files book ! 0; joinedTags = Join (Tags bf) '' '' in
        if createNew then
          (if fails e Fts_Insert then (Some (Failed Fts_Insert), tx)
           else if BookId book \<in> set (map docid (books_fts tx)) then (Some (ConstraintError ''books_fts.docid''), tx)
           else (None, tx\<lparr>books_fts := books_fts tx @
                  [\<lparr>docid = BookId book, fts_author = Join (Authors book) '' & '',
                    fts_series = Series book, fts_title = Title book,
                    fts_extension = Extension bf, fts_tags = joinedTags, fts_source = Source bf\<rparr>]\<rparr>))
        else if fails e Fts_Query then (Some (Failed Fts_Query), tx)
        else case iter e Fts_Rows (filter (\<lambda>d. docid d = BookId book) (books_fts tx)) of
          ([], rows_err) \<Rightarrow>
            if rows_err then (None, tx) else (Some (NotInFTS (BookId book)), tx)
        | (d # _, _) \<Rightarrow>
            if fails e Fts_Scan then (Some (Failed Fts_Scan), tx)
            else if fails e Fts_Update then (Some (Failed Fts_Update), tx)
            else (None, tx\<lparr>books_fts := map (\<lambda>r. if docid r = docid d
                     then r\<lparr>fts_tags := fts_tags d @ '' '' @ joinedTags,
                            fts_extension := fts_extension d @ '' '' @ Extension bf,
                            fts_source := fts_source d @ '' '' @ Source bf\<rparr>
                     else r) (books_fts tx)\<rparr>))"

text \<open>
  \<^verbatim>\<open>copyFile\<close>, \<^verbatim>\<open>moveFile\<close> and \<^verbatim>\<open>moveOrCopyFile\<close>: only their errors reach the
  store, so the paths are left out. The deferred \<^verbatim>\<open>fd.Close()\<close> of \<^verbatim>\<open>copyFile\<close>
  replaces the result when it fails; a failing \<^verbatim>\<open>os.Remove\<close> after a copy is logged
  and not returned.
\<close>

definition copyFile :: "env \<Rightarrow> error option" where
  "copyFile e =
     (if fails e Fs_Open then Some (Wrap (Failed Fs_Open) ''Copy file'')
      else if fails e Fs_Stat then Some (Wrap (Failed Fs_Stat) ''Copy file'')
      else if fails e Fs_Create then Some (Wrap (Failed Fs_Create) ''Copy file'')
      else let r = (if fails e Fs_Copy then Some (Wrap (Failed Fs_Copy) ''Copy file'') else None) in
        if fails e Fs_Close then Some (Wrap (Failed Fs_Close) ''Copy file'') else r)"

definition moveFile :: "env \<Rightarrow> error option" where
  "moveFile e =
     (if fails e Fs_Rename then
        (case copyFile e of
           Some err \<Rightarrow> Some err
         | None \<Rightarrow> if fails e Fs_Remove then None else None)
      else None)"

definition moveOrCopyFile :: "env \<Rightarrow> Book \<Rightarrow> bool \<Rightarrow> error option" where
  "moveOrCopyFile e book move =
     (if length (Files book) \<noteq> 1 then Some (ErrorNew ''Book to move or copy must contain only one file'')
      else if fails e Fs_MkdirAll then Some (Failed Fs_MkdirAll)
      else if move then moveFile e
      else copyFile e)"

text \<open>
  The block of \<^verbatim>\<open>ImportBook\<close> that gives the book its identifier: a new row and its
  authors when no entry was found, the entry found otherwise. A failing
  \<^verbatim>\<open>LastInsertId\<close> of the new row returns without a rollback.
\<close>

definition resolve_entry :: "env \<Rightarrow> store \<Rightarrow> Book \<Rightarrow> int \<Rightarrow> bool \<Rightarrow> (error option \<times> tx_end) + (Book \<times> store)" where
  "resolve_entry e tx book existingBookId found =
     (if \<not> found then
        (if fails e Book_Insert then Inl (Some (Wrap (Failed Book_Insert) ''Insert new book''), RolledBack)
         else let newId = next_id (map books_id (books tx));
                  tx1 = tx\<lparr>books := books tx @
                          [\<lparr>books_id = newId, books_series = Series book, books_title = Title book\<rparr>]\<rparr> in
           if fails e Book_LastId then Inl (Some (Wrap (Failed Book_LastId) ''sett new book ID''), LeftOpen)
           else let book1 = book\<lparr>BookId := newId\<rparr> in
             (case insertAuthors e tx1 (Authors book1) book1 of
                Inl err \<Rightarrow> Inl (Some err, RolledBack)
              | Inr tx2 \<Rightarrow> Inr (book1, tx2)))
      else Inr (book\<lparr>BookId := existingBookId\<rparr>, tx))"

text \<open>\<^verbatim>\<open>insert into files (...)\<close> and \<^verbatim>\<open>LastInsertId\<close>; \<^verbatim>\<open>hash\<close> is \<^verbatim>\<open>unique\<close>.\<close>

definition insert_file :: "env \<Rightarrow> store \<Rightarrow> Book \<Rightarrow> BookFile \<Rightarrow> error + (int \<times> store)" where
  "insert_file e tx book bf =
     (if fails e File_Insert then Inl (Wrap (Failed File_Insert) ''Inserting book file into the db'')
      else if Hash bf \<in> set (map files_hash (files tx))
        then Inl (Wrap (ConstraintError ''files.hash'') ''Inserting book file into the db'')
      else let fileId = next_id (map files_id (files tx));
               tx1 = tx\<lparr>files := files tx @
                 [\<lparr>files_id = fileId, files_book_id = BookId book, files_extension = Extension bf,
                   files_original_filename = OriginalFilename bf, files_filename = CurrentFilename bf,
                   files_file_size = FileSize bf, files_file_mtime = FileMtime bf, files_hash = Hash bf,
                   files_regexp_name = RegexpName bf, files_source = Source bf\<rparr>]\<rparr> in
        if fails e File_LastId then Inl (Wrap (Failed File_LastId) ''Fetching new book ID'')
        else Inr (fileId, tx1))"

text \<open>
  The statements of \<^verbatim>\<open>ImportBook\<close> between \<^verbatim>\<open>lib.Begin()\<close> and the placement of the
  file, on the transaction's copy of the store: \<open>Inl\<close> is a return before the
  placement, with the value returned and the state the transaction is left in.
  After the duplicate check, \<^verbatim>\<open>errors.Wrapf(err, ...)\<close> wraps the nil error of the
  query, not \<^verbatim>\<open>rows.Err()\<close>.
\<close>

definition import_tx :: "env \<Rightarrow> store \<Rightarrow> Book \<Rightarrow> (error option \<times> tx_end) + (Book \<times> store)" where
  "import_tx e lib book0 =
     (let bf = Files book0 ! 0 in
      if fails e Dup_Query then Inl (Some (Failed Dup_Query), RolledBack)
      else case iter e Dup_Rows (select_file_ids_by_hash lib (Hash bf)) of
        (fid # _, _) \<Rightarrow> Inl (Some (DuplicateBook fid), RolledBack)
      | ([], True) \<Rightarrow> Inl (wrap None (''Searching for duplicate book by hash '' @ Hash bf), RolledBack)
      | ([], False) \<Rightarrow>
         (case getBookIdByTitleAndAuthors e lib (Title book0) (Authors book0) of
            Inl err \<Rightarrow> Inl (Some (Wrap err ''find existing book''), RolledBack)
          | Inr (existingBookId, found) \<Rightarrow>
             (case resolve_entry e lib book0 existingBookId found of
                Inl r \<Rightarrow> Inl r
              | Inr (book, tx1) \<Rightarrow>
                 (case insert_file e tx1 book bf of
                    Inl err \<Rightarrow> Inl (Some err, RolledBack)
                  | Inr (fileId, tx2) \<Rightarrow>
                     (case insertTags e tx2 (Tags bf) (bf\<lparr>FileId := fileId\<rparr>) of
                        Inl err \<Rightarrow> Inl (Some err, RolledBack)
                      | Inr tx3 \<Rightarrow>
                         (case indexBookInSearch e tx3 book (\<not> found) of
                            (Some err, tx4) \<Rightarrow> Inl (Some (Wrap err ''index book in search''), RolledBack)
                          | (None, tx4) \<Rightarrow> Inr (book, tx4)))))))"

text \<open>
  \<^verbatim>\<open>ImportBook\<close>: the value returned, the store after the call and how the
  transaction ended. The error of \<^verbatim>\<open>tx.Commit()\<close> is dropped by the program.
\<close>

definition ImportBook :: "env \<Rightarrow> store \<Rightarrow> Book \<Rightarrow> bool \<Rightarrow> error option \<times> store \<times> tx_end" where
  "ImportBook e lib book move =
     (if length (Files book) \<noteq> 1 then (Some (ErrorNew ''Book to import must contain only one file''), lib, NoTx)
      else if fails e Import_Begin then (Some (Failed Import_Begin), lib, NoTx)
      else case import_tx e lib book of
        Inl (err, t) \<Rightarrow> (err, lib, t)
      | Inr (book1, tx) \<Rightarrow>
         (case moveOrCopyFile e book1 move of
            Some err \<Rightarrow> (Some (Wrap err ''Moving or copying book''), lib, RolledBack)
          | None \<Rightarrow> if fails e Import_Commit then (None, lib, CommitFailed) else (None, tx, Committed)))"

section \<open>Search and hydration\<close>

text \<open>
  Go's \<^verbatim>\<open>int\<close> is 64 bits wide on the platforms the store's driver supports: the sum
  \<^verbatim>\<open>limit+moreResultsLimit\<close> wraps around.
\<close>

definition wrap64 :: "int \<Rightarrow> int" where
  "wrap64 x = (x + 2 ^ 63) mod 2 ^ 64 - 2 ^ 63"

text \<open>
  \<^verbatim>\<open>LIMIT ? OFFSET ?\<close>: a negative limit is no limit and a negative offset is no
  offset, as the store documents.
\<close>

definition sql_limit :: "int \<Rightarrow> int \<Rightarrow> 'a list \<Rightarrow> 'a list" where
  "sql_limit lim off rows = (let r = drop (nat off) rows in if lim < 0 then r else take (nat lim) r)"

text \<open>\<^verbatim>\<open>select docid from books_fts where books_fts match ?\<close>\<close>

definition select_docids :: "env \<Rightarrow> store \<Rightarrow> string \<Rightarrow> int list" where
  "select_docids e lib terms = map docid (filter (fts_match e terms) (books_fts lib))"

text \<open>\<^verbatim>\<open>getTagsByFileIds\<close>: as \<^verbatim>\<open>getAuthorsByBookIds\<close>, for the tags of files.\<close>

definition getTagsByFileIds :: "env \<Rightarrow> store \<Rightarrow> int list \<Rightarrow> error + (int \<times> string list) list" where
  "getTagsByFileIds e tx ids =
     (if ids = [] then Inr []
      else if fails e Tags_Query then Inl (Failed Tags_Query)
      else let rows = fst (iter e Tags_Rows (select_tags_by_file_ids tx ids)) in
        if rows \<noteq> [] \<and> fails e Tags_Scan then Inl (Failed Tags_Scan)
        else Inr (group_rows rows))"

definition file_of_row :: "files_row \<Rightarrow> string list \<Rightarrow> BookFile" where
  "file_of_row r ts =
     \<lparr>FileId = files_id r, Extension = files_extension r, OriginalFilename = files_original_filename r,
      CurrentFilename = files_filename r, FileSize = files_file_size r, FileMtime = files_file_mtime r,
      Hash = files_hash r, RegexpName = files_regexp_name r, Source = files_source r, Tags = ts\<rparr>"

text \<open>\<^verbatim>\<open>getFilesById\<close>: the files with the identifiers, each with its tags.\<close>

definition getFilesById :: "env \<Rightarrow> store \<Rightarrow> int list \<Rightarrow> error + BookFile list" where
  "getFilesById e tx ids =
     (if ids = [] then Inr []
      else case getTagsByFileIds e tx ids of
        Inl err \<Rightarrow> Inl err
      | Inr tagMap \<Rightarrow>
          if fails e Files_Query then Inl (Failed Files_Query)
          else let rows = fst (iter e Files_Rows (filter (\<lambda>f. files_id f \<in> set ids) (files tx))) in
            if rows \<noteq> [] \<and> fails e Files_Scan then Inl (Failed Files_Scan)
            else Inr (map (\<lambda>r. file_of_row r (lookup tagMap (files_id r))) rows))"

text \<open>
  \<^verbatim>\<open>getFilesByBookIds\<close>: the file identifiers of each book, then the files of each
  entry of that map. The map it fills does not depend on the order of the \<^verbatim>\<open>range\<close>.
\<close>

fun files_for :: "env \<Rightarrow> store \<Rightarrow> (int \<times> int list) list \<Rightarrow> error + (int \<times> BookFile list) list" where
  "files_for e tx [] = Inr []"
| "files_for e tx ((bookId, fileIds) # rest) =
     (case getFilesById e tx fileIds of
        Inl err \<Rightarrow> Inl err
      | Inr fs \<Rightarrow>
         (case files_for e tx rest of
            Inl err \<Rightarrow> Inl err
          | Inr m \<Rightarrow> Inr ((bookId, fs) # m)))"

definition getFilesByBookIds :: "env \<Rightarrow> store \<Rightarrow> int list \<Rightarrow> error + (int \<times> BookFile list) list" where
  "getFilesByBookIds e tx ids =
     (if ids = [] then Inr []
      else if fails e FileIds_Query then Inl (Failed FileIds_Query)
      else let rows = fst (iter e FileIds_Rows
                 (map (\<lambda>f. (files_book_id f, files_id f)) (filter (\<lambda>f. files_book_id f \<in> set ids) (files tx)))) in
        if rows \<noteq> [] \<and> fails e FileIds_Scan then Inl (Failed FileIds_Scan)
        else files_for e tx (group_rows rows))"

text \<open>
  \<^verbatim>\<open>GetBooksById\<close>: the books and the error returned. After a broken iteration over
  the books the program wraps the nil error of the query, and returns nil twice.
\<close>

definition GetBooksById :: "env \<Rightarrow> store \<Rightarrow> int list \<Rightarrow> Book list \<times> error option" where
  "GetBooksById e lib ids =
     (if ids = [] then ([], None)
      else if fails e Hydrate_Begin then ([], Some (Wrap (Failed Hydrate_Begin) ''get books by ID''))
      else if fails e Books_Query then ([], Some (Wrap (Failed Books_Query) ''fetching books from database by ID''))
      else case iter e Books_Rows (filter (\<lambda>b. books_id b \<in> set ids) (books lib)) of
        (rows, rows_err) \<Rightarrow>
          if rows \<noteq> [] \<and> fails e Books_Scan then ([], Some (Wrap (Failed Books_Scan) ''scanning rows''))
          else if rows_err then ([], wrap None ''querying books by ID'')
          else case getAuthorsByBookIds e lib ids of
            Inl err \<Rightarrow> ([], Some (Wrap err ''get authors for books''))
          | Inr authorMap \<Rightarrow>
             (case getFilesByBookIds e lib ids of
                Inl err \<Rightarrow> ([], Some (Wrap err ''get files for books''))
              | Inr fileMap \<Rightarrow>
                  if fails e Hydrate_Commit then ([], Some (Wrap (Failed Hydrate_Commit) ''get books by ID''))
                  else (map (\<lambda>b. \<lparr>BookId = books_id b, Series = books_series b, Title = books_title b,
                                   Authors = lookup authorMap (books_id b),
                                   Files = lookup fileMap (books_id b)\<rparr>) rows, None)))"

text \<open>\<^verbatim>\<open>SearchPaged\<close>: the books, \<^verbatim>\<open>moreResults\<close> and the error.\<close>

definition SearchPaged :: "env \<Rightarrow> store \<Rightarrow> string \<Rightarrow> int \<Rightarrow> int \<Rightarrow> int \<Rightarrow> Book list \<times> int \<times> error option" where
  "SearchPaged e lib terms offset limit moreResultsLimit =
     (let matches = select_docids e lib terms;
          fetched = (if limit = 0 then matches
                     else sql_limit (wrap64 (limit + moreResultsLimit)) offset matches) in
      if fails e Search_Query then ([], 0, Some (Wrap (Failed Search_Query) ''Querying db for search terms''))
      else case iter e Search_Rows fetched of
        (ids, rows_err) \<Rightarrow>
          if rows_err then ([], 0, Some (Wrap (Failed Search_Rows) ''Retrieving search results from db''))
          else let moreResults = (if limit > 0 \<and> int (length ids) > limit then int (length ids) - limit else 0);
                   ids1 = (if limit > 0 \<and> int (length ids) > limit then take (nat limit) ids else ids) in
            (case GetBooksById e lib ids1 of (bs, err) \<Rightarrow> (bs, moreResults, err)))"

text \<open>\<^verbatim>\<open>Search\<close>\<close>

definition Search :: "env \<Rightarrow> store \<Rightarrow> string \<Rightarrow> Book list \<times> error option" where
  "Search e lib terms = (case SearchPaged e lib terms 0 0 0 of (bs, moreResults, err) \<Rightarrow> (bs, err))"

section \<open>Unique file names\<close>

text \<open>
  \<^verbatim>\<open>path.Ext\<close>: the suffix from the last dot of the last element of the path, read
  from the end of the string up to a slash.
\<close>

fun ext_from_end :: "string \<Rightarrow> string \<Rightarrow> string" where
  "ext_from_end [] acc = []"
| "ext_from_end (c # cs) acc =
     (if c = CHR ''/'' then [] else if c = CHR ''.'' then c # acc else ext_from_end cs (c # acc))"

definition Ext :: "string \<Rightarrow> string" where
  "Ext p = ext_from_end (rev p) []"

text \<open>\<^verbatim>\<open>strings.TrimSuffix\<close>\<close>

definition TrimSuffix :: "string \<Rightarrow> string \<Rightarrow> string" where
  "TrimSuffix s suf =
     (if length suf \<le> length s \<and> drop (length s - length suf) s = suf
      then take (length s - length suf) s else s)"

text \<open>\<^verbatim>\<open>strconv.Itoa\<close> on the counter of \<^verbatim>\<open>GetUniqueName\<close>, which starts at 1 and grows.\<close>

fun Itoa :: "nat \<Rightarrow> string" where
  "Itoa n = (if n < 10 then [''0123456789'' ! n] else Itoa (n div 10) @ [''0123456789'' ! (n mod 10)])"

declare Itoa.simps [simp del]

text \<open>The name \<^verbatim>\<open>GetUniqueName\<close> tries in round \<open>i\<close> of its loop.\<close>

definition candidate :: "string \<Rightarrow> string \<Rightarrow> nat \<Rightarrow> string" where
  "candidate f ext i = TrimSuffix f ext @ '' ('' @ Itoa i @ '')'' @ ext"

text \<open>
  The loop of \<^verbatim>\<open>GetUniqueName\<close> from round \<open>i\<close> on, over the names \<open>fs\<close> for which
  \<^verbatim>\<open>os.Stat\<close> returns no error. The names of different rounds differ and \<open>fs\<close> is
  finite, so the loop ends.
\<close>

function probe :: "string list \<Rightarrow> string \<Rightarrow> string \<Rightarrow> nat \<Rightarrow> string" where
  "probe fs f ext i =
     (if candidate f ext i \<in> set fs then probe fs f ext (i + 1) else candidate f ext i)"
  by pat_completeness auto
termination
proof (relation "measure (\<lambda>(fs, f, ext, i). card {j. i \<le> j \<and> candidate f ext j \<in> set fs})")
  show "wf (measure (\<lambda>(fs, f, ext, i). card {j. i \<le> j \<and> candidate f ext j \<in> set fs}))"
    by simp
next
  fix fs :: "string list" and f ext :: string and i :: nat
  assume taken: "candidate f ext i \<in> set fs"
  define num where "num = foldl (\<lambda>a c. 10 * a + (of_char c - 48)) (0::nat)"
  have digit: "of_char (''0123456789'' ! k) - 48 = k" if "k < 10" for k :: nat
  proof -
    from that have "k = 0 \<or> k = 1 \<or> k = 2 \<or> k = 3 \<or> k = 4 \<or> k = 5 \<or> k = 6 \<or> k = 7 \<or> k = 8 \<or> k = 9"
      by arith
    then show ?thesis by (elim disjE) simp_all
  qed
  have num_Itoa: "num (Itoa n) = n" for n
  proof (induction n rule: Itoa.induct)
    case (1 n)
    show ?case
    proof (cases "n < 10")
      case True
      then show ?thesis by (simp add: Itoa.simps [of n] num_def digit)
    next
      case False
      with 1 have "num (Itoa (n div 10)) = n div 10" by simp
      with False show ?thesis
        by (simp add: Itoa.simps [of n] num_def digit)
    qed
  qed
  have "inj Itoa" by (rule inj_on_inverseI [where g = num]) (rule num_Itoa)
  then have inj: "inj (candidate f ext)"
    by (auto simp: inj_def candidate_def)
  have fin: "finite {j. i \<le> j \<and> candidate f ext j \<in> set fs}"
  proof (rule finite_subset)
    show "{j. i \<le> j \<and> candidate f ext j \<in> set fs} \<subseteq> candidate f ext -` set fs" by auto
    show "finite (candidate f ext -` set fs)" by (rule finite_vimageI [OF _ inj]) simp
  qed
  have "i \<in> {j. i \<le> j \<and> candidate f ext j \<in> set fs}"
    and "i \<notin> {j. i + 1 \<le> j \<and> candidate f ext j \<in> set fs}"
    using taken by simp_all
  moreover have "{j. i + 1 \<le> j \<and> candidate f ext j \<in> set fs} \<subseteq> {j. i \<le> j \<and> candidate f ext j \<in> set fs}"
    by auto
  ultimately have "{j. i + 1 \<le> j \<and> candidate f ext j \<in> set fs} \<subset> {j. i \<le> j \<and> candidate f ext j \<in> set fs}"
    by blast
  then have "card {j. i + 1 \<le> j \<and> candidate f ext j \<in> set fs} < card {j. i \<le> j \<and> candidate f ext j \<in> set fs}"
    by (rule psubset_card_mono [OF fin])
  then show "((fs, f, ext, i + 1), (fs, f, ext, i))
      \<in> measure (\<lambda>(fs, f, ext, i). card {j. i \<le> j \<and> candidate f ext j \<in> set fs})"
    by simp
qed

declare probe.simps [simp del]

text \<open>\<^verbatim>\<open>GetUniqueName\<close>\<close>

definition GetUniqueName :: "string list \<Rightarrow> string \<Rightarrow> string" where
  "GetUniqueName fs f = (if f \<in> set fs then probe fs f (Ext f) 1 else f)"

section \<open>The order of the link rows\<close>

text \<open>
  The authors of a book and the tags of a file as the specification words them: the
  names joined to the links of the book (of the file), the links taken by their row
  identifier.
\<close>

definition authors_in_link_order :: "store \<Rightarrow> int \<Rightarrow> string list" where
  "authors_in_link_order s b =
     concat (map (author_names s) (sort_key ba_id (filter (\<lambda>l. ba_book_id l = b) (books_authors s))))"

definition tags_in_link_order :: "store \<Rightarrow> int \<Rightarrow> string list" where
  "tags_in_link_order s f =
     concat (map (tag_names s) (sort_key ft_id (filter (\<lambda>l. ft_file_id l = f) (files_tags s))))"

section \<open>Identity of an entry, and well-formed catalogs\<close>

text \<open>
  A run without failures: no call fails and no iteration breaks off. \<open>range_perm\<close>
  says that \<^verbatim>\<open>range\<close> visits the entries of a map, each of them, in some order.
\<close>

definition no_faults :: "env \<Rightarrow> bool" where
  "no_faults e \<longleftrightarrow> fails e = (\<lambda>s. False) \<and> cut e = (\<lambda>s. None)"

definition range_perm :: "env \<Rightarrow> bool" where
  "range_perm e \<longleftrightarrow> (\<forall>m. set (range_order e m) = set m)"

text \<open>
  The entries with an identity, as the specification words it: the books with the
  title whose authors, in the order of their links, are the names asked for.
\<close>

definition entries_with_identity :: "store \<Rightarrow> string \<Rightarrow> string list \<Rightarrow> int list" where
  "entries_with_identity s title as =
     filter (\<lambda>b. authors_in_link_order s b = as) (select_book_ids_by_title s title)"

text \<open>
  A well-formed catalog: the identifiers of the authors are distinct (a primary key),
  every link names a book and an author of the catalog, and the search documents are
  those of the books. \<open>authors_ok\<close> is its part about authors; \<open>extends_links\<close> relates
  a catalog to one that differs from it in its authors and in the links of one book.
\<close>

definition wf_store :: "store \<Rightarrow> bool" where
  "wf_store s \<longleftrightarrow>
     distinct (map authors_id (authors s))
     \<and> ba_book_id ` set (books_authors s) \<subseteq> books_id ` set (books s)
     \<and> ba_author_id ` set (books_authors s) \<subseteq> authors_id ` set (authors s)
     \<and> docid ` set (books_fts s) = books_id ` set (books s)"

definition authors_ok :: "store \<Rightarrow> bool" where
  "authors_ok tx \<longleftrightarrow>
     distinct (map authors_id (authors tx))
     \<and> ba_author_id ` set (books_authors tx) \<subseteq> authors_id ` set (authors tx)"

definition extends_links :: "int \<Rightarrow> store \<Rightarrow> store \<Rightarrow> bool" where
  "extends_links bk tx tx' \<longleftrightarrow>
     books tx' = books tx \<and> files tx' = files tx \<and> tags tx' = tags tx
     \<and> files_tags tx' = files_tags tx \<and> books_fts tx' = books_fts tx
     \<and> (\<forall>b. b \<noteq> bk \<longrightarrow> authors_in_link_order tx' b = authors_in_link_order tx b)
     \<and> ba_book_id ` set (books_authors tx') \<subseteq> insert bk (ba_book_id ` set (books_authors tx))"

section \<open>Example runs\<close>

text \<open>
  An environment in which no call fails, the empty catalog, a book with one file, a
  second file of the same book, and the catalog after the import of the book.
\<close>

definition quiet :: env where
  "quiet = \<lparr>fails = (\<lambda>s. False), cut = (\<lambda>s. None), fts_match = (\<lambda>terms d. terms = fts_title d),
            range_order = (\<lambda>m. m)\<rparr>"

definition empty_store :: store where
  "empty_store = \<lparr>books = [], files = [], authors = [], books_authors = [], tags = [], files_tags = [], books_fts = []\<rparr>"

definition dune_epub :: BookFile where
  "dune_epub = \<lparr>FileId = 0, Extension = ''epub'', OriginalFilename = ''/in/dune.epub'',
     CurrentFilename = ''Herbert/Dune.epub'', FileSize = 100, FileMtime = 7, Hash = ''h1'',
     RegexpName = ''default'', Source = ''web'', Tags = [''scifi'', ''classic'']\<rparr>"

definition dune :: Book where
  "dune = \<lparr>BookId = 0, Series = ''Dune'', Title = ''Dune'', Authors = [''Frank Herbert''], Files = [dune_epub]\<rparr>"

definition dune_mobi :: BookFile where
  "dune_mobi = \<lparr>FileId = 0, Extension = ''mobi'', OriginalFilename = ''/in/dune.mobi'',
     CurrentFilename = ''Herbert/Dune.mobi'', FileSize = 90, FileMtime = 8, Hash = ''h2'',
     RegexpName = ''default'', Source = ''disk'', Tags = [''scifi'']\<rparr>"

definition dune_store :: store where
  "dune_store =
  \<lparr>books = [\<lparr>books_id = 1, books_series = ''Dune'', books_title = ''Dune''\<rparr>],
     files =
       [\<lparr>files_id = 1, files_book_id = 1, files_extension = ''epub'',
           files_original_filename = ''/in/dune.epub'',
           files_filename = ''Herbert/Dune.epub'', files_file_size = 100,
           files_file_mtime = 7, files_hash = ''h1'',
           files_regexp_name = ''default'', files_source = ''web''\<rparr>],
     authors = [\<lparr>authors_id = 1, authors_name = ''Frank Herbert''\<rparr>],
     books_authors = [\<lparr>ba_id = 1, ba_book_id = 1, ba_author_id = 1\<rparr>],
     tags =
       [\<lparr>tags_id = 1, tags_name = ''scifi''\<rparr>,
        \<lparr>tags_id = 2, tags_name = ''classic''\<rparr>],
     files_tags =
       [\<lparr>ft_id = 1, ft_file_id = 1, ft_tag_id = 1\<rparr>,
        \<lparr>ft_id = 2, ft_file_id = 1, ft_tag_id = 2\<rparr>],
     books_fts =
       [\<lparr>docid = 1, fts_author = ''Frank Herbert'', fts_series = ''Dune'',
           fts_title = ''Dune'', fts_extension = ''epub'',
           fts_tags = ''scifi classic'', fts_source = ''web''\<rparr>]\<rparr>"

text \<open>An environment in which the iteration over the existing search document breaks.\<close>

definition fts_rows_break :: env where
  "fts_rows_break = quiet\<lparr>cut := (\<lambda>s. if s = Fts_Rows then Some 0 else None)\<rparr>"

text \<open>An environment in which the iteration over the rows of the lookup by hash breaks.\<close>

definition dup_rows_break :: env where
  "dup_rows_break = quiet\<lparr>cut := (\<lambda>s. if s = Dup_Rows then Some 0 else None)\<rparr>"

text \<open>A catalog with five entries that a search for \<^verbatim>\<open>go\<close> matches.\<close>

definition five_store :: store where
  "five_store = empty_store\<lparr>
     books := map (\<lambda>i. \<lparr>books_id = i, books_series = [], books_title = ''go''\<rparr>) [1, 2, 3, 4, 5],
     books_fts := map (\<lambda>i. \<lparr>docid = i, fts_author = [], fts_series = [], fts_title = ''go'',
        fts_extension = [], fts_tags = [], fts_source = []\<rparr>) [1, 2, 3, 4, 5]\<rparr>"

text \<open>
  The catalog after the import of a book by Zelazny and Dick, in this order, with the
  tags \<^verbatim>\<open>novel\<close> and \<^verbatim>\<open>apocalypse\<close>, in this order.
\<close>

definition zelazny_store :: store where
  "zelazny_store =
   \<lparr>books = [\<lparr>books_id = 1, books_series = [], books_title = ''Deus Irae''\<rparr>],
    files =
      [\<lparr>files_id = 1, files_book_id = 1, files_extension = ''epub'',
        files_original_filename = ''/in/deus.epub'', files_filename = ''Zelazny/Deus Irae.epub'',
        files_file_size = 100, files_file_mtime = 7, files_hash = ''h3'',
        files_regexp_name = ''default'', files_source = ''web''\<rparr>],
    authors =
      [\<lparr>authors_id = 1, authors_name = ''Zelazny''\<rparr>, \<lparr>authors_id = 2, authors_name = ''Dick''\<rparr>],
    books_authors =
      [\<lparr>ba_id = 1, ba_book_id = 1, ba_author_id = 1\<rparr>, \<lparr>ba_id = 2, ba_book_id = 1, ba_author_id = 2\<rparr>],
    tags =
      [\<lparr>tags_id = 1, tags_name = ''novel''\<rparr>, \<lparr>tags_id = 2, tags_name = ''apocalypse''\<rparr>],
    files_tags =
      [\<lparr>ft_id = 1, ft_file_id = 1, ft_tag_id = 1\<rparr>, \<lparr>ft_id = 2, ft_file_id = 1, ft_tag_id = 2\<rparr>],
    books_fts =
      [\<lparr>docid = 1, fts_author = ''Zelazny & Dick'', fts_series = [], fts_title = ''Deus Irae'',
        fts_extension = ''epub'', fts_tags = ''novel apocalypse'', fts_source = ''web''\<rparr>]\<rparr>"

text \<open>
  A book by two authors, the catalog after its import, and the catalogs after the
  import of a second file of it with the authors in the other order, and in the same
  order.
\<close>

definition picnic :: Book where
  "picnic = \<lparr>BookId = 0, Series = [], Title = ''Roadside Picnic'', Authors = [''Arkady'', ''Boris''],
     Files = [dune_epub\<lparr>Hash := ''h4'', Tags := []\<rparr>]\<rparr>"

definition picnic_store :: store where
  "picnic_store = fst (snd (ImportBook quiet dune_store picnic False))"

definition picnic_reversed :: store where
  "picnic_reversed = fst (snd (ImportBook quiet picnic_store
     (picnic\<lparr>Authors := [''Boris'', ''Arkady''], Files := [dune_epub\<lparr>Hash := ''h5'', Tags := []\<rparr>]\<rparr>) False))"

definition picnic_again :: store where
  "picnic_again = fst (snd (ImportBook quiet picnic_store
     (picnic\<lparr>Files := [dune_mobi\<lparr>Hash := ''h6'', Tags := []\<rparr>]\<rparr>) False))"

text \<open>
  A book without authors and a book that names one author twice, and the catalogs
  after their import.
\<close>

definition beowulf :: Book where
  "beowulf = \<lparr>BookId = 0, Series = [], Title = ''Beowulf'', Authors = [],
     Files = [dune_epub\<lparr>Hash := ''h7'', Tags := []\<rparr>]\<rparr>"

definition twins :: Book where
  "twins = \<lparr>BookId = 0, Series = [], Title = ''Twins'', Authors = [''Ann'', ''Ann''],
     Files = [dune_epub\<lparr>Hash := ''h8'', Tags := []\<rparr>]\<rparr>"

definition anon_store :: store where
  "anon_store = fst (snd (ImportBook quiet empty_store beowulf False))"

definition twins_store :: store where
  "twins_store = fst (snd (ImportBook quiet empty_store twins False))"

section \<open>Catalogs built by imports\<close>

text \<open>
  The search index agrees with the books: the identifiers of the books are distinct,
  so are the keys of the search documents, and every document is keyed by the
  identifier of a book. \<open>built\<close> are the catalogs that calls of \<^verbatim>\<open>ImportBook\<close> make of
  the empty one, whatever fails in them.
\<close>

definition index_consistent :: "store \<Rightarrow> bool" where
  "index_consistent s \<longleftrightarrow>
     distinct (map books_id (books s)) \<and> distinct (map docid (books_fts s))
     \<and> docid ` set (books_fts s) \<subseteq> books_id ` set (books s)"

inductive built :: "store \<Rightarrow> bool" where
  built_empty: "built empty_store"
| built_import: "built lib \<Longrightarrow> built (fst (snd (ImportBook e lib book move)))"

section \<open>Properties of the import\<close>

lemmas import_defs = ImportBook_def import_tx_def iter_def select_file_ids_by_hash_def
  getBookIdByTitleAndAuthors_def select_book_ids_by_title_def getAuthorsByBookIds_def
  select_authors_by_book_ids_def author_names_def group_rows_def authorsEqual_def
  resolve_entry_def insertAuthor_def link_author_def next_id_def insert_file_def
  insertTag_def link_tag_def indexBookInSearch_def moveOrCopyFile_def copyFile_def moveFile_def

lemmas example_defs = quiet_def empty_store_def dune_def dune_epub_def dune_mobi_def dune_store_def

text \<open>
  C8. A book that does not carry exactly one file is refused with the error
  \<^verbatim>\<open>Book to import must contain only one file\<close>, whatever the environment: no
  transaction is begun and the store is the one before the call.
\<close>

theorem ImportBook_needs_one_file:
  assumes "length (Files book) \<noteq> 1"
  shows "ImportBook e lib book move = (Some (ErrorNew ''Book to import must contain only one file''), lib, NoTx)"
  using assms by (simp add: ImportBook_def)

theorem ImportBook_needs_one_file_witness:
  "ImportBook (quiet\<lparr>fails := (\<lambda>s. True)\<rparr>) dune_store (dune\<lparr>Files := []\<rparr>) True
     = (Some (ErrorNew ''Book to import must contain only one file''), dune_store, NoTx)
   \<and> ImportBook quiet dune_store (dune\<lparr>Files := [dune_epub, dune_mobi]\<rparr>) False
     = (Some (ErrorNew ''Book to import must contain only one file''), dune_store, NoTx)"
  using ImportBook_needs_one_file [of "dune\<lparr>Files := []\<rparr>" "quiet\<lparr>fails := (\<lambda>s. True)\<rparr>" dune_store True]
    ImportBook_needs_one_file [of "dune\<lparr>Files := [dune_epub, dune_mobi]\<rparr>" quiet dune_store False]
  by simp

text \<open>
  The duplicate check when the lookup by hash delivers a row: a file of the store has
  the hash of the book's single file, the transaction begins, the lookup is answered
  and the iteration does not break before its first row. \<^verbatim>\<open>ImportBook\<close> returns the
  duplicate error with the identifier of a file of the store with that hash, rolls
  back, and the store is the one before the call.
\<close>

lemma ImportBook_duplicate_hash:
  assumes "length (Files book) = 1"
    and "f \<in> set (files lib)" and "files_hash f = Hash (Files book ! 0)"
    and "\<not> fails e Import_Begin" and "\<not> fails e Dup_Query" and "cut e Dup_Rows \<noteq> Some 0"
  shows "\<exists>g \<in> set (files lib). files_hash g = Hash (Files book ! 0) \<and>
           ImportBook e lib book move = (Some (DuplicateBook (files_id g)), lib, RolledBack)"
proof -
  let ?rows = "filter (\<lambda>f. files_hash f = Hash (Files book ! 0)) (files lib)"
  from assms(2,3) have "?rows \<noteq> []" by (auto simp: filter_empty_conv)
  then obtain g gs where g: "?rows = g # gs" by (cases ?rows) auto
  then have "g \<in> set ?rows" by simp
  then have gin: "g \<in> set (files lib)" "files_hash g = Hash (Files book ! 0)"
    by auto
  have "\<exists>ids t. iter e Dup_Rows (map files_id ?rows) = (files_id g # ids, t)"
    using assms(6) g by (cases "cut e Dup_Rows") (auto simp: iter_def take_Cons')
  then have "import_tx e lib book = Inl (Some (DuplicateBook (files_id g)), RolledBack)"
    using assms(5) by (auto simp: import_tx_def select_file_ids_by_hash_def)
  then have "ImportBook e lib book move = (Some (DuplicateBook (files_id g)), lib, RolledBack)"
    using assms(1,4) by (simp add: ImportBook_def)
  with gin show ?thesis by blast
qed

lemma ImportBook_duplicate_hash_dune:
  "ImportBook quiet dune_store \<lparr>BookId = 0, Series = [], Title = ''Another title'', Authors = [''Somebody''],
       Files = [dune_mobi\<lparr>Hash := ''h1''\<rparr>]\<rparr> True
     = (Some (DuplicateBook 1), dune_store, RolledBack)"
  using ImportBook_duplicate_hash [of "\<lparr>BookId = 0, Series = [], Title = ''Another title'', Authors = [''Somebody''],
       Files = [dune_mobi\<lparr>Hash := ''h1''\<rparr>]\<rparr>" "hd (files dune_store)" dune_store quiet True]
  by (simp add: example_defs)

text \<open>
  Every run of \<^verbatim>\<open>ImportBook\<close> on a book whose hash a file of the store has, whatever
  fails: the store is the one before the call, and the value returned is nil exactly
  when the transaction begins, the lookup is answered and the iteration breaks before
  its first row.
\<close>

lemma ImportBook_duplicate_hash_runs:
  assumes "length (Files book) = 1"
    and "f \<in> set (files lib)" and "files_hash f = Hash (Files book ! 0)"
  shows "fst (snd (ImportBook e lib book move)) = lib"
    and "fst (ImportBook e lib book move) = None
           \<longleftrightarrow> \<not> fails e Import_Begin \<and> \<not> fails e Dup_Query \<and> cut e Dup_Rows = Some 0"
proof -
  let ?rows = "filter (\<lambda>f. files_hash f = Hash (Files book ! 0)) (files lib)"
  from assms(2,3) have "?rows \<noteq> []" by (auto simp: filter_empty_conv)
  then obtain g gs where g: "?rows = g # gs" by (cases ?rows) auto
  have "(cut e Dup_Rows = Some 0 \<and> iter e Dup_Rows (map files_id ?rows) = ([], True))
      \<or> (cut e Dup_Rows \<noteq> Some 0 \<and> (\<exists>ids t. iter e Dup_Rows (map files_id ?rows) = (files_id g # ids, t)))"
    using g by (cases "cut e Dup_Rows") (auto simp: iter_def take_Cons')
  then have tx: "\<not> fails e Dup_Query \<Longrightarrow>
      (cut e Dup_Rows = Some 0 \<and> import_tx e lib book = Inl (None, RolledBack))
      \<or> (cut e Dup_Rows \<noteq> Some 0 \<and> import_tx e lib book = Inl (Some (DuplicateBook (files_id g)), RolledBack))"
    by (auto simp: import_tx_def select_file_ids_by_hash_def)
  have q: "fails e Dup_Query \<Longrightarrow> import_tx e lib book = Inl (Some (Failed Dup_Query), RolledBack)"
    by (simp add: import_tx_def)
  show "fst (snd (ImportBook e lib book move)) = lib"
    using tx q assms(1) by (cases "fails e Dup_Query") (auto simp: ImportBook_def)
  show "fst (ImportBook e lib book move) = None
           \<longleftrightarrow> \<not> fails e Import_Begin \<and> \<not> fails e Dup_Query \<and> cut e Dup_Rows = Some 0"
    using tx q assms(1) by (cases "fails e Dup_Query") (auto simp: ImportBook_def)
qed

text \<open>
  C1. The hash \<^verbatim>\<open>h1\<close> is in the store, on the file 1, and the iteration over the rows
  of the lookup by hash breaks (\<^verbatim>\<open>rows.Next()\<close> returns false and \<^verbatim>\<open>rows.Err()\<close> is set):
  \<^verbatim>\<open>ImportBook\<close> rolls back and returns nil, the wrapping of the nil error of the query,
  where a duplicate is to be reported. This holds for a book under another title and
  for the book of the store itself. The store is the one before the call.
\<close>

theorem ImportBook_duplicate_reported_as_success:
  "select_file_ids_by_hash dune_store ''h1'' = [1]
   \<and> ImportBook dup_rows_break dune_store \<lparr>BookId = 0, Series = [], Title = ''Another title'',
         Authors = [''Somebody''], Files = [dune_mobi\<lparr>Hash := ''h1''\<rparr>]\<rparr> True
       = (None, dune_store, RolledBack)
   \<and> ImportBook dup_rows_break dune_store (dune\<lparr>Files := [dune_epub]\<rparr>) False
       = (None, dune_store, RolledBack)"
  by (simp add: import_defs dup_rows_break_def example_defs)

text \<open>
  C6. When the statements of the transaction have all succeeded and the placement of
  the file fails, \<^verbatim>\<open>ImportBook\<close> returns the wrapped error of the placement, rolls
  back, and the store is the one before the import began.
\<close>

theorem ImportBook_placement_failure:
  assumes "length (Files book) = 1" and "\<not> fails e Import_Begin"
    and "import_tx e lib book = Inr (book1, tx)"
    and "moveOrCopyFile e book1 move = Some err"
  shows "ImportBook e lib book move = (Some (Wrap err ''Moving or copying book''), lib, RolledBack)"
  using assms by (simp add: ImportBook_def)

lemma import_tx_dune:
  "import_tx (quiet\<lparr>fails := (\<lambda>s. s = Fs_Open)\<rparr>) empty_store dune = Inr (dune\<lparr>BookId := 1\<rparr>, dune_store)"
  by (simp add: import_defs example_defs)

theorem ImportBook_placement_failure_witness:
  "import_tx (quiet\<lparr>fails := (\<lambda>s. s = Fs_Open)\<rparr>) empty_store dune = Inr (dune\<lparr>BookId := 1\<rparr>, dune_store)
   \<and> ImportBook (quiet\<lparr>fails := (\<lambda>s. s = Fs_Open)\<rparr>) empty_store dune False
     = (Some (Wrap (Wrap (Failed Fs_Open) ''Copy file'') ''Moving or copying book''), empty_store, RolledBack)"
proof -
  have len: "length (Files dune) = 1" by (simp add: example_defs)
  have beg: "\<not> fails (quiet\<lparr>fails := (\<lambda>s. s = Fs_Open)\<rparr>) Import_Begin" by simp
  have place: "moveOrCopyFile (quiet\<lparr>fails := (\<lambda>s. s = Fs_Open)\<rparr>) (dune\<lparr>BookId := 1\<rparr>) False
      = Some (Wrap (Failed Fs_Open) ''Copy file'')"
    by (simp add: moveOrCopyFile_def copyFile_def example_defs)
  show ?thesis
    using ImportBook_placement_failure [OF len beg import_tx_dune place] import_tx_dune by simp
qed

section \<open>Properties of the search index\<close>

lemma first_with_docid:
  assumes "distinct (map docid ds)" and "filter (\<lambda>d. docid d = k) ds = d # rest"
    and "r \<in> set ds" and "docid r = k"
  shows "r = d"
proof -
  have "d \<in> set (filter (\<lambda>d. docid d = k) ds)" using assms(2) by simp
  then have "d \<in> set ds" "docid d = k" by auto
  with assms(1,3,4) show ?thesis by (auto simp: distinct_map inj_on_def)
qed

text \<open>
  C4. For a book with one file, when the calls to the index succeed: a new entry gets
  one document, keyed by the entry's identifier, with the author names joined by
  \<^verbatim>\<open>" & "\<close> and the file's extension, tags (joined by a space) and source; for an
  entry with a document, the file's tags, extension and source are appended to the
  document's fields after a space, as they are, repeated words included.
\<close>

theorem indexBookInSearch_document:
  assumes "Files book = [bf]" and "distinct (map docid (books_fts tx))"
    and "\<not> fails e Fts_Insert" and "\<not> fails e Fts_Query" and "cut e Fts_Rows \<noteq> Some 0"
    and "\<not> fails e Fts_Scan" and "\<not> fails e Fts_Update"
  shows "(BookId book \<notin> set (map docid (books_fts tx)) \<longrightarrow>
            indexBookInSearch e tx book True =
              (None, tx\<lparr>books_fts := books_fts tx @
                 [\<lparr>docid = BookId book, fts_author = Join (Authors book) '' & '',
                   fts_series = Series book, fts_title = Title book,
                   fts_extension = Extension bf, fts_tags = Join (Tags bf) '' '',
                   fts_source = Source bf\<rparr>]\<rparr>))
       \<and> (BookId book \<in> set (map docid (books_fts tx)) \<longrightarrow>
            indexBookInSearch e tx book False =
              (None, tx\<lparr>books_fts := map (\<lambda>r. if docid r = BookId book
                  then r\<lparr>fts_tags := fts_tags r @ '' '' @ Join (Tags bf) '' '',
                         fts_extension := fts_extension r @ '' '' @ Extension bf,
                         fts_source := fts_source r @ '' '' @ Source bf\<rparr>
                  else r) (books_fts tx)\<rparr>))"
proof (intro conjI impI)
  assume "BookId book \<notin> set (map docid (books_fts tx))"
  then show "indexBookInSearch e tx book True =
      (None, tx\<lparr>books_fts := books_fts tx @
         [\<lparr>docid = BookId book, fts_author = Join (Authors book) '' & '',
           fts_series = Series book, fts_title = Title book,
           fts_extension = Extension bf, fts_tags = Join (Tags bf) '' '',
           fts_source = Source bf\<rparr>]\<rparr>)"
    using assms(1,3) by (simp add: indexBookInSearch_def)
next
  let ?docs = "filter (\<lambda>d. docid d = BookId book) (books_fts tx)"
  assume "BookId book \<in> set (map docid (books_fts tx))"
  then have "?docs \<noteq> []" by (auto simp: filter_empty_conv)
  then obtain d rest where d: "?docs = d # rest" by (cases ?docs) auto
  have same: "r = d" if "r \<in> set (books_fts tx)" "docid r = BookId book" for r
    using first_with_docid [OF assms(2) d that] .
  have "d \<in> set ?docs" using d by simp
  then have dk: "docid d = BookId book" by simp
  have it: "\<exists>ds t. iter e Fts_Rows ?docs = (d # ds, t)"
    using assms(5) d by (cases "cut e Fts_Rows") (auto simp: iter_def take_Cons')
  have "map (\<lambda>r. if docid r = docid d
            then r\<lparr>fts_tags := fts_tags d @ '' '' @ Join (Tags bf) '' '',
                   fts_extension := fts_extension d @ '' '' @ Extension bf,
                   fts_source := fts_source d @ '' '' @ Source bf\<rparr>
            else r) (books_fts tx)
      = map (\<lambda>r. if docid r = BookId book
            then r\<lparr>fts_tags := fts_tags r @ '' '' @ Join (Tags bf) '' '',
                   fts_extension := fts_extension r @ '' '' @ Extension bf,
                   fts_source := fts_source r @ '' '' @ Source bf\<rparr>
            else r) (books_fts tx)"
    using same dk by (intro map_cong) auto
  then show "indexBookInSearch e tx book False =
      (None, tx\<lparr>books_fts := map (\<lambda>r. if docid r = BookId book
          then r\<lparr>fts_tags := fts_tags r @ '' '' @ Join (Tags bf) '' '',
                 fts_extension := fts_extension r @ '' '' @ Extension bf,
                 fts_source := fts_source r @ '' '' @ Source bf\<rparr>
          else r) (books_fts tx)\<rparr>)"
    using assms(1,4,6,7) it by (auto simp: indexBookInSearch_def)
qed

theorem indexBookInSearch_document_witness:
  "indexBookInSearch quiet dune_store (dune\<lparr>BookId := 2, Authors := [''A'', ''B'']\<rparr>) True =
     (None, dune_store\<lparr>books_fts := books_fts dune_store @
        [\<lparr>docid = 2, fts_author = ''A & B'', fts_series = ''Dune'', fts_title = ''Dune'',
          fts_extension = ''epub'', fts_tags = ''scifi classic'', fts_source = ''web''\<rparr>]\<rparr>)
   \<and> indexBookInSearch quiet dune_store (dune\<lparr>BookId := 1, Files := [dune_mobi]\<rparr>) False =
     (None, dune_store\<lparr>books_fts :=
        [\<lparr>docid = 1, fts_author = ''Frank Herbert'', fts_series = ''Dune'', fts_title = ''Dune'',
          fts_extension = ''epub mobi'', fts_tags = ''scifi classic scifi'', fts_source = ''web disk''\<rparr>]\<rparr>)"
  using indexBookInSearch_document [of "dune\<lparr>BookId := 2, Authors := [''A'', ''B'']\<rparr>" dune_epub dune_store quiet]
    indexBookInSearch_document [of "dune\<lparr>BookId := 1, Files := [dune_mobi]\<rparr>" dune_mobi dune_store quiet]
  by (simp add: example_defs)

text \<open>
  C5. The iteration over the existing document breaks (\<^verbatim>\<open>rows.Next()\<close> returns false
  and \<^verbatim>\<open>rows.Err()\<close> is set): \<^verbatim>\<open>indexBookInSearch\<close> returns nil and leaves the document
  as it was, and \<^verbatim>\<open>ImportBook\<close> commits the new file without its index entry.
\<close>

theorem indexBookInSearch_drops_iteration_error:
  "indexBookInSearch fts_rows_break dune_store (dune\<lparr>BookId := 1, Files := [dune_mobi]\<rparr>) False = (None, dune_store)
   \<and> ImportBook fts_rows_break dune_store (dune\<lparr>Files := [dune_mobi]\<rparr>) False =
       (None,
        dune_store\<lparr>files := files dune_store @
            [\<lparr>files_id = 2, files_book_id = 1, files_extension = ''mobi'',
              files_original_filename = ''/in/dune.mobi'', files_filename = ''Herbert/Dune.mobi'',
              files_file_size = 90, files_file_mtime = 8, files_hash = ''h2'',
              files_regexp_name = ''default'', files_source = ''disk''\<rparr>],
          files_tags := files_tags dune_store @ [\<lparr>ft_id = 3, ft_file_id = 2, ft_tag_id = 1\<rparr>]\<rparr>,
        Committed)"
  by (simp add: import_defs fts_rows_break_def example_defs)

section \<open>Properties of the search\<close>

lemma wrap64_small: "0 \<le> x \<Longrightarrow> x < 2 ^ 63 \<Longrightarrow> wrap64 x = x"
  by (simp add: wrap64_def)

lemma wrap64_large:
  assumes "2 ^ 63 \<le> x" and "x < 2 ^ 64"
  shows "wrap64 x = x - 2 ^ 64"
proof -
  have "x + 2 ^ 63 = (x - 2 ^ 63) + (2 ^ 64 :: int)" by simp
  then have "(x + 2 ^ 63) mod 2 ^ 64 = ((x - 2 ^ 63) + 2 ^ 64) mod 2 ^ 64" by (rule arg_cong)
  also have "\<dots> = (x - 2 ^ 63) mod 2 ^ 64" by (rule mod_add_self2)
  also have "\<dots> = x - 2 ^ 63" using assms by simp
  finally show ?thesis by (simp add: wrap64_def)
qed

lemma sql_limit_window:
  assumes "0 < limit" and "0 \<le> cap" and "limit < 2 ^ 63" and "cap < 2 ^ 63"
    and "int (length rows) < 2 ^ 63"
  shows "sql_limit (wrap64 (limit + cap)) off rows = take (nat (limit + cap)) (drop (nat off) rows)"
proof (cases "limit + cap < 2 ^ 63")
  case True
  with assms have "wrap64 (limit + cap) = limit + cap" by (intro wrap64_small) auto
  with assms show ?thesis by (simp add: sql_limit_def)
next
  case False
  with assms have w: "wrap64 (limit + cap) = limit + cap - 2 ^ 64" by (intro wrap64_large) auto
  with assms have "wrap64 (limit + cap) < 0" by simp
  moreover have "length (drop (nat off) rows) \<le> nat (limit + cap)"
    using False assms(5) by simp
  ultimately show ?thesis by (simp add: sql_limit_def)
qed

lemma GetBooksById_length:
  assumes "distinct (map books_id (books lib))"
  shows "length (fst (GetBooksById e lib ids)) \<le> length ids"
proof -
  let ?rows = "filter (\<lambda>b. books_id b \<in> set ids) (books lib)"
  have "distinct (map books_id ?rows)" using assms by (rule distinct_map_filter)
  then have "length ?rows = card (books_id ` set ?rows)"
    by (metis distinct_card length_map set_map)
  also have "\<dots> \<le> card (set ids)" by (intro card_mono) auto
  also have "\<dots> \<le> length ids" by (rule card_length)
  finally have rows: "length ?rows \<le> length ids" .
  have "length (fst (iter e Books_Rows ?rows)) \<le> length ?rows"
    by (simp add: iter_def split: option.splits)
  with rows have "length (fst (iter e Books_Rows ?rows)) \<le> length ids" by simp
  then show ?thesis
    by (auto simp: GetBooksById_def split: prod.splits sum.splits)
qed

lemma SearchPaged_fetched:
  assumes "\<not> fails e Search_Query" and "cut e Search_Rows = None"
  shows "SearchPaged e lib terms offset limit cap =
    (let fetched = (if limit = 0 then select_docids e lib terms
                    else sql_limit (wrap64 (limit + cap)) offset (select_docids e lib terms));
         ids = (if limit > 0 \<and> int (length fetched) > limit then take (nat limit) fetched else fetched)
     in (fst (GetBooksById e lib ids), int (length fetched) - int (length ids), snd (GetBooksById e lib ids)))"
  using assms by (auto simp: SearchPaged_def iter_def Let_def split: prod.splits)

text \<open>
  A run without failures: no call fails and every iteration delivers all its rows.
  Hydration then returns no error, and one book for each identifier asked for that
  is the identifier of a book.
\<close>

lemma no_faults_fails: "no_faults e \<Longrightarrow> \<not> fails e x"
  by (simp add: no_faults_def)

lemma no_faults_iter: "no_faults e \<Longrightarrow> iter e st rows = (rows, False)"
  by (simp add: no_faults_def iter_def)

lemma quiet_ok: "no_faults quiet" "range_perm quiet"
  by (simp_all add: no_faults_def range_perm_def quiet_def)

lemma getAuthorsByBookIds_total: "no_faults e \<Longrightarrow> \<exists>am. getAuthorsByBookIds e tx ids = Inr am"
  by (simp add: getAuthorsByBookIds_def no_faults_fails no_faults_iter)

lemma getFilesById_total: "no_faults e \<Longrightarrow> \<exists>fs. getFilesById e tx ids = Inr fs"
  by (simp add: getFilesById_def getTagsByFileIds_def no_faults_fails no_faults_iter)

lemma files_for_total: "no_faults e \<Longrightarrow> \<exists>fm. files_for e tx m = Inr fm"
proof (induction m)
  case Nil
  then show ?case by simp
next
  case (Cons p m)
  obtain bookId fileIds where p: "p = (bookId, fileIds)" by (cases p)
  from getFilesById_total [OF Cons.prems, of tx fileIds] obtain fs where "getFilesById e tx fileIds = Inr fs"
    by blast
  moreover from Cons obtain fm where "files_for e tx m = Inr fm" by blast
  ultimately show ?case using p by simp
qed

lemma getFilesByBookIds_total: "no_faults e \<Longrightarrow> \<exists>fm. getFilesByBookIds e tx ids = Inr fm"
  using files_for_total [of e tx] by (simp add: getFilesByBookIds_def no_faults_fails no_faults_iter)

lemma rows_of_ids:
  assumes "distinct (map f rows)" and "distinct ids" and "set ids \<subseteq> f ` set rows"
  shows "length (filter (\<lambda>r. f r \<in> set ids) rows) = length ids"
    and "f ` set (filter (\<lambda>r. f r \<in> set ids) rows) = set ids"
proof -
  let ?rows = "filter (\<lambda>r. f r \<in> set ids) rows"
  show s: "f ` set ?rows = set ids" using assms(3) by auto
  have "distinct (map f ?rows)" using assms(1) by (rule distinct_map_filter)
  then have "length ?rows = card (f ` set ?rows)" by (metis distinct_card length_map set_map)
  also have "\<dots> = length ids" using s assms(2) by (simp add: distinct_card)
  finally show "length ?rows = length ids" .
qed

lemma GetBooksById_page:
  assumes nf: "no_faults e" and "distinct (map books_id (books lib))" and "distinct ids"
    and "set ids \<subseteq> books_id ` set (books lib)"
  shows "\<exists>bs. GetBooksById e lib ids = (bs, None) \<and> length bs = length ids
           \<and> set (map BookId bs) = set ids"
proof (cases "ids = []")
  case True
  then show ?thesis by (simp add: GetBooksById_def)
next
  case False
  let ?rows = "filter (\<lambda>b. books_id b \<in> set ids) (books lib)"
  from getAuthorsByBookIds_total [OF nf, of lib ids] obtain am where am: "getAuthorsByBookIds e lib ids = Inr am"
    by blast
  from getFilesByBookIds_total [OF nf, of lib ids] obtain fm where fm: "getFilesByBookIds e lib ids = Inr fm"
    by blast
  let ?bs = "map (\<lambda>b. \<lparr>BookId = books_id b, Series = books_series b, Title = books_title b,
                 Authors = lookup am (books_id b), Files = lookup fm (books_id b)\<rparr>) ?rows"
  have run: "GetBooksById e lib ids = (?bs, None)"
    using nf False am fm by (simp add: GetBooksById_def no_faults_fails no_faults_iter)
  have ids: "map BookId ?bs = map books_id ?rows" by (simp add: comp_def)
  from rows_of_ids [OF assms(2,3,4)] have "length ?rows = length ids" "books_id ` set ?rows = set ids"
    by simp_all
  then have "length ?bs = length ids" "set (map BookId ?bs) = set ids"
    unfolding ids by simp_all
  with run show ?thesis by blast
qed

lemma matches_distinct:
  assumes "distinct (map docid (books_fts lib))"
  shows "distinct (select_docids e lib terms)"
  unfolding select_docids_def using assms by (rule distinct_map_filter)

lemma matches_have_entries:
  assumes "docid ` set (books_fts lib) \<subseteq> books_id ` set (books lib)"
  shows "set (select_docids e lib terms) \<subseteq> books_id ` set (books lib)"
  using assms by (auto simp: select_docids_def)




text \<open>
  C10. \<^verbatim>\<open>Search\<close> returns the books and the error of \<^verbatim>\<open>SearchPaged\<close> with offset,
  limit and \<^verbatim>\<open>moreResultsLimit\<close> all 0.
\<close>

theorem Search_unpaged:
  "Search e lib terms = (fst (SearchPaged e lib terms 0 0 0), snd (snd (SearchPaged e lib terms 0 0 0)))"
  by (simp add: Search_def split: prod.splits)

section \<open>Properties of the hydration\<close>

lemma lookup_append_at:
  "lookup (append_at k' v m) k = (if k = k' then lookup m k @ [v] else lookup m k)"
  by (induction m) (auto simp: lookup_def)

lemma lookup_fold_append_at:
  "lookup (fold (\<lambda>(k, v) m. append_at k v m) rows m) k
     = lookup m k @ map snd (filter (\<lambda>r. fst r = k) rows)"
  by (induction rows arbitrary: m) (auto simp: lookup_append_at)

lemma lookup_group_rows: "lookup (group_rows rows) k = map snd (filter (\<lambda>r. fst r = k) rows)"
  by (simp add: group_rows_def lookup_fold_append_at) (simp add: lookup_def)

lemma rows_of_key:
  "map snd (filter (\<lambda>r. fst r = k) (concat (map (\<lambda>l. map (\<lambda>n. (key l, n)) (names l)) ls)))
     = concat (map names (filter (\<lambda>l. key l = k) ls))"
  by (induction ls) (auto simp: comp_def)

lemma filter_links:
  "k \<in> set ids \<Longrightarrow>
   filter (\<lambda>l. key l = k) (sort_key ord (filter (\<lambda>l. key l \<in> set ids) ls))
     = sort_key ord (filter (\<lambda>l. key l = k) ls)"
proof -
  assume k: "k \<in> set ids"
  have "filter (\<lambda>l. key l = k) (filter (\<lambda>l. key l \<in> set ids) ls) = filter (\<lambda>l. key l = k) ls"
    using k by (auto intro: filter_cong)
  then show ?thesis by (simp add: filter_sort)
qed

lemma getAuthorsByBookIds_lookup:
  assumes "getAuthorsByBookIds e tx ids = Inr am" and "cut e Authors_Rows = None" and "b \<in> set ids"
  shows "lookup am b = authors_in_link_order tx b"
proof -
  from assms(3) have "ids \<noteq> []" by auto
  with assms(1,2) have "am = group_rows (select_authors_by_book_ids tx ids)"
    by (auto simp: getAuthorsByBookIds_def iter_def Let_def split: if_splits)
  then show ?thesis
    using assms(3)
    by (simp add: lookup_group_rows select_authors_by_book_ids_def rows_of_key filter_links
        authors_in_link_order_def)
qed

lemma getTagsByFileIds_lookup:
  assumes "getTagsByFileIds e tx ids = Inr tm" and "cut e Tags_Rows = None" and "f \<in> set ids"
  shows "lookup tm f = tags_in_link_order tx f"
proof -
  from assms(3) have "ids \<noteq> []" by auto
  with assms(1,2) have "tm = group_rows (select_tags_by_file_ids tx ids)"
    by (auto simp: getTagsByFileIds_def iter_def Let_def split: if_splits)
  then show ?thesis
    using assms(3)
    by (simp add: lookup_group_rows select_tags_by_file_ids_def rows_of_key filter_links
        tags_in_link_order_def)
qed

lemma iter_subset: "set (fst (iter e st rows)) \<subseteq> set rows"
  by (auto simp: iter_def split: option.splits dest: in_set_takeD)

lemma getFilesById_tags:
  assumes "getFilesById e tx ids = Inr fs" and "cut e Tags_Rows = None" and "f \<in> set fs"
  shows "Tags f = tags_in_link_order tx (FileId f)"
proof (cases "ids = []")
  case True
  with assms show ?thesis by (simp add: getFilesById_def)
next
  case False
  with assms(1) obtain tm where tm: "getTagsByFileIds e tx ids = Inr tm"
    by (auto simp: getFilesById_def split: sum.splits)
  let ?rows = "fst (iter e Files_Rows (filter (\<lambda>f. files_id f \<in> set ids) (files tx)))"
  from assms(1) False tm have "fs = map (\<lambda>r. file_of_row r (lookup tm (files_id r))) ?rows"
    by (auto simp: getFilesById_def Let_def split: if_splits)
  with assms(3) obtain r where r: "r \<in> set ?rows" "f = file_of_row r (lookup tm (files_id r))"
    by auto
  from r(1) iter_subset have "files_id r \<in> set ids" by fastforce
  with getTagsByFileIds_lookup [OF tm assms(2)] r(2) show ?thesis
    by (simp add: file_of_row_def)
qed

lemma files_for_tags:
  assumes "files_for e tx m = Inr fm" and "cut e Tags_Rows = None" and "f \<in> set (lookup fm k)"
  shows "Tags f = tags_in_link_order tx (FileId f)"
  using assms
proof (induction m arbitrary: fm)
  case Nil
  then show ?case by (simp add: lookup_def)
next
  case (Cons p m)
  obtain bookId fileIds where p: "p = (bookId, fileIds)" by (cases p)
  from Cons.prems(1) p obtain fs fm' where
    fs: "getFilesById e tx fileIds = Inr fs" and fm': "files_for e tx m = Inr fm'"
    and fm: "fm = (bookId, fs) # fm'"
    by (auto split: sum.splits)
  show ?case
  proof (cases "k = bookId")
    case True
    with Cons.prems(3) fm have "f \<in> set fs" by (simp add: lookup_def)
    with getFilesById_tags [OF fs Cons.prems(2)] show ?thesis by simp
  next
    case False
    with Cons.prems(3) fm have "f \<in> set (lookup fm' k)" by (simp add: lookup_def)
    with Cons.IH [OF fm' Cons.prems(2)] show ?thesis by simp
  qed
qed

lemma getFilesByBookIds_tags:
  assumes "getFilesByBookIds e tx ids = Inr fm" and "cut e Tags_Rows = None" and "f \<in> set (lookup fm k)"
  shows "Tags f = tags_in_link_order tx (FileId f)"
proof (cases "ids = []")
  case True
  with assms show ?thesis by (simp add: getFilesByBookIds_def lookup_def)
next
  case False
  with assms(1) obtain m where "files_for e tx m = Inr fm"
    by (auto simp: getFilesByBookIds_def Let_def split: if_splits)
  from files_for_tags [OF this assms(2,3)] show ?thesis .
qed

text \<open>
  C7. When the iterations over the author and tag links are not broken off, every
  book \<^verbatim>\<open>GetBooksById\<close> returns has the names of its authors in the order of the
  identifiers of its link rows, and every file of it the names of its tags in the
  order of the identifiers of its link rows. Where the identifiers grow in the order
  of insertion, this is the order in which the links were inserted.
\<close>

theorem hydration_in_link_order:
  assumes "cut e Authors_Rows = None" and "cut e Tags_Rows = None"
  shows "(\<forall>b \<in> set (fst (GetBooksById e lib ids)).
            Authors b = authors_in_link_order lib (BookId b)
          \<and> (\<forall>f \<in> set (Files b). Tags f = tags_in_link_order lib (FileId f)))
       \<and> (sorted (map ba_id (books_authors lib)) \<longrightarrow>
            authors_in_link_order lib k =
              concat (map (author_names lib) (filter (\<lambda>l. ba_book_id l = k) (books_authors lib))))
       \<and> (sorted (map ft_id (files_tags lib)) \<longrightarrow>
            tags_in_link_order lib k =
              concat (map (tag_names lib) (filter (\<lambda>l. ft_file_id l = k) (files_tags lib))))"
proof (intro conjI ballI impI)
  fix b assume b: "b \<in> set (fst (GetBooksById e lib ids))"
  then have ne: "fst (GetBooksById e lib ids) \<noteq> []" by auto
  let ?rows = "fst (iter e Books_Rows (filter (\<lambda>b. books_id b \<in> set ids) (books lib)))"
  from ne obtain am fm where am: "getAuthorsByBookIds e lib ids = Inr am"
    and fm: "getFilesByBookIds e lib ids = Inr fm"
    and res: "fst (GetBooksById e lib ids) =
      map (\<lambda>b. \<lparr>BookId = books_id b, Series = books_series b, Title = books_title b,
                 Authors = lookup am (books_id b), Files = lookup fm (books_id b)\<rparr>) ?rows"
    by (auto simp: GetBooksById_def split: if_splits prod.splits sum.splits)
  from b res obtain r where r: "r \<in> set ?rows"
    and beq: "b = \<lparr>BookId = books_id r, Series = books_series r, Title = books_title r,
                 Authors = lookup am (books_id r), Files = lookup fm (books_id r)\<rparr>"
    by auto
  from r iter_subset have "books_id r \<in> set ids" by fastforce
  with getAuthorsByBookIds_lookup [OF am assms(1)] beq
  show "Authors b = authors_in_link_order lib (BookId b)" by simp
  fix f assume "f \<in> set (Files b)"
  with beq have "f \<in> set (lookup fm (books_id r))" by simp
  with getFilesByBookIds_tags [OF fm assms(2)]
  show "Tags f = tags_in_link_order lib (FileId f)" by simp
next
  assume "sorted (map ba_id (books_authors lib))"
  then have "sorted (map ba_id (filter (\<lambda>l. ba_book_id l = k) (books_authors lib)))"
    by (rule sorted_filter)
  then show "authors_in_link_order lib k =
      concat (map (author_names lib) (filter (\<lambda>l. ba_book_id l = k) (books_authors lib)))"
    by (simp add: authors_in_link_order_def sort_key_id_if_sorted)
next
  assume "sorted (map ft_id (files_tags lib))"
  then have "sorted (map ft_id (filter (\<lambda>l. ft_file_id l = k) (files_tags lib)))"
    by (rule sorted_filter)
  then show "tags_in_link_order lib k =
      concat (map (tag_names lib) (filter (\<lambda>l. ft_file_id l = k) (files_tags lib)))"
    by (simp add: tags_in_link_order_def sort_key_id_if_sorted)
qed

theorem hydration_in_link_order_witness:
  "fst (GetBooksById quiet zelazny_store [1]) \<noteq> []
   \<and> Authors (hd (fst (GetBooksById quiet zelazny_store [1]))) = [''Zelazny'', ''Dick'']
   \<and> map Tags (Files (hd (fst (GetBooksById quiet zelazny_store [1])))) = [[''novel'', ''apocalypse'']]"
proof -
  let ?bs = "fst (GetBooksById quiet zelazny_store [1])"
  have q: "cut quiet Authors_Rows = None" "cut quiet Tags_Rows = None" by (simp_all add: quiet_def)
  have a: "authors_in_link_order zelazny_store 1 = [''Zelazny'', ''Dick'']"
    by (simp add: authors_in_link_order_def author_names_def zelazny_store_def)
  have t: "tags_in_link_order zelazny_store 1 = [''novel'', ''apocalypse'']"
    by (simp add: tags_in_link_order_def tag_names_def zelazny_store_def)
  have shape: "map BookId ?bs = [1] \<and> map (map FileId \<circ> Files) ?bs = [[1]]"
    by (simp add: GetBooksById_def getAuthorsByBookIds_def getFilesByBookIds_def getFilesById_def
        getTagsByFileIds_def iter_def group_rows_def lookup_def file_of_row_def
        zelazny_store_def quiet_def)
  then obtain b where bs: "?bs = [b]" and b: "BookId b = 1" by (cases ?bs) auto
  from shape bs obtain f where fs: "Files b = [f]" and f: "FileId f = 1" by (cases "Files b") auto
  from hydration_in_link_order [OF q, of zelazny_store "[1]"] bs
  have "Authors b = authors_in_link_order zelazny_store (BookId b)"
    and "\<forall>f \<in> set (Files b). Tags f = tags_in_link_order zelazny_store (FileId f)"
    by simp_all
  with a t b fs f bs show ?thesis by simp
qed

section \<open>Properties of the identity resolution\<close>

declare no_faults_fails [simp] no_faults_iter [simp]

lemma all_equal_zip: "length a = length b \<Longrightarrow> all_equal (zip a b) \<longleftrightarrow> a = b"
  by (induction a b rule: list_induct2) auto

lemma authorsEqual_iff: "authorsEqual a b \<longleftrightarrow> a = b"
  by (auto simp: authorsEqual_def all_equal_zip)

lemma append_at_keys:
  "map fst (append_at k v m) = (if k \<in> fst ` set m then map fst m else map fst m @ [k])"
proof (induction m)
  case Nil
  then show ?case by simp
next
  case (Cons p m)
  obtain k' vs where p: "p = (k', vs)" by (cases p)
  show ?case
  proof (cases "k' = k")
    case True
    with p show ?thesis by simp
  next
    case False
    with p Cons.IH show ?thesis by (cases "k \<in> fst ` set m") simp_all
  qed
qed

lemma fold_append_at_distinct:
  "distinct (map fst m) \<Longrightarrow> distinct (map fst (fold (\<lambda>(k, v) m. append_at k v m) rows m))"
  by (induction rows arbitrary: m) (auto simp: append_at_keys)

lemma group_rows_distinct: "distinct (map fst (group_rows rows))"
  by (simp add: group_rows_def fold_append_at_distinct)

lemma group_rows_entry:
  assumes "(k, vs) \<in> set (group_rows rows)"
  shows "vs = map snd (filter (\<lambda>r. fst r = k) rows)"
proof -
  have "map_of (group_rows rows) k = Some vs"
    using group_rows_distinct assms by (rule map_of_is_SomeI)
  then have "lookup (group_rows rows) k = vs" by (simp add: lookup_def)
  then show ?thesis by (simp add: lookup_group_rows)
qed

lemma lookup_entry:
  assumes "lookup m k = vs" and "vs \<noteq> []"
  shows "(k, vs) \<in> set m"
  using assms by (auto simp: lookup_def split: option.splits dest: map_of_SomeD)

lemma author_rows_of_book:
  "map snd (filter (\<lambda>r. fst r = k) (select_authors_by_book_ids tx ids))
     = (if k \<in> set ids then authors_in_link_order tx k else [])"
proof (cases "k \<in> set ids")
  case True
  then show ?thesis
    by (simp add: select_authors_by_book_ids_def rows_of_key filter_links authors_in_link_order_def)
next
  case False
  then have "filter (\<lambda>l. ba_book_id l = k)
      (sort_key ba_id (filter (\<lambda>l. ba_book_id l \<in> set ids) (books_authors tx))) = []"
    by (auto simp: filter_empty_conv)
  with False show ?thesis
    by (simp add: select_authors_by_book_ids_def rows_of_key)
qed

lemma getBookIdByTitleAndAuthors_found:
  assumes "no_faults e" and "range_perm e" and "as \<noteq> []"
  shows "\<exists>b found. getBookIdByTitleAndAuthors e tx title as = Inr (b, found)
           \<and> (found \<longleftrightarrow> entries_with_identity tx title as \<noteq> [])
           \<and> (found \<longrightarrow> b \<in> set (entries_with_identity tx title as))"
proof -
  let ?ids = "select_book_ids_by_title tx title"
  define am where "am = (if ?ids = [] then [] else group_rows (select_authors_by_book_ids tx ?ids))"
  let ?P = "\<lambda>(bookId, authorNames). authorsEqual as authorNames"
  have am: "getAuthorsByBookIds e tx ?ids = Inr am"
    using assms(1) by (simp add: getAuthorsByBookIds_def am_def)
  have res: "getBookIdByTitleAndAuthors e tx title as =
      (case find ?P (range_order e am) of
         Some (bookId, authorNames) \<Rightarrow> Inr (bookId, True)
       | None \<Rightarrow> Inr (0, False))"
    using assms(1) am by (simp add: getBookIdByTitleAndAuthors_def)
  have entry: "b \<in> set (entries_with_identity tx title as)" if "(b, as) \<in> set am" for b
  proof -
    from that have ne: "?ids \<noteq> []" and "(b, as) \<in> set (group_rows (select_authors_by_book_ids tx ?ids))"
      by (auto simp: am_def split: if_splits)
    then have "as = map snd (filter (\<lambda>r. fst r = b) (select_authors_by_book_ids tx ?ids))"
      by (simp add: group_rows_entry)
    with assms(3) have "b \<in> set ?ids" "authors_in_link_order tx b = as"
      by (auto simp: author_rows_of_book split: if_splits)
    then show ?thesis by (simp add: entries_with_identity_def)
  qed
  have member: "(b, as) \<in> set am" if "b \<in> set (entries_with_identity tx title as)" for b
  proof -
    from that have b: "b \<in> set ?ids" "authors_in_link_order tx b = as"
      by (auto simp: entries_with_identity_def)
    then have "lookup (group_rows (select_authors_by_book_ids tx ?ids)) b = as"
      by (simp add: lookup_group_rows author_rows_of_book)
    from lookup_entry [OF this assms(3)] b(1) show ?thesis by (auto simp: am_def)
  qed
  show ?thesis
  proof (cases "find ?P (range_order e am)")
    case None
    then have "\<not> (\<exists>x \<in> set (range_order e am). ?P x)" by (auto simp: find_None_iff)
    with assms(2) have no: "\<And>b. (b, as) \<notin> set am"
      by (auto simp: range_perm_def authorsEqual_iff)
    have "entries_with_identity tx title as = []"
    proof (rule ccontr)
      assume "entries_with_identity tx title as \<noteq> []"
      then obtain b where "b \<in> set (entries_with_identity tx title as)"
        by (cases "entries_with_identity tx title as") auto
      from member [OF this] no show False by blast
    qed
    with None res show ?thesis by (intro exI [of _ 0] exI [of _ False]) simp
  next
    case (Some p)
    obtain b names where p: "p = (b, names)" by (cases p)
    from Some p have "(b, names) \<in> set (range_order e am)" "authorsEqual as names"
      by (auto simp: find_Some_iff in_set_conv_nth)
    with assms(2) have "(b, as) \<in> set am" by (simp add: range_perm_def authorsEqual_iff)
    from entry [OF this] have "b \<in> set (entries_with_identity tx title as)" .
    moreover then have "entries_with_identity tx title as \<noteq> []" by auto
    ultimately show ?thesis using Some p res by (intro exI [of _ b] exI [of _ True]) simp
  qed
qed

lemma next_id_greater: "i \<in> set ids \<Longrightarrow> i < next_id ids"
proof (cases ids)
  case Nil
  then show "i \<in> set ids \<Longrightarrow> i < next_id ids" by simp
next
  case (Cons x xs)
  assume "i \<in> set ids"
  then have "i \<le> Max (set (x # xs))" using Cons by (intro Max_ge) auto
  also have "\<dots> = fold max xs x" by (rule Max.set_eq_fold)
  finally show "i < next_id ids" using Cons by (simp add: next_id_def)
qed

lemma next_id_fresh: "next_id ids \<notin> set ids"
  using next_id_greater [of "next_id ids" ids] by auto

lemma insort_key_snoc: "f x \<le> f y \<Longrightarrow> insort_key f x (zs @ [y]) = insort_key f x zs @ [y]"
  by (induction zs) auto

lemma sort_key_snoc: "\<forall>x \<in> set xs. f x \<le> f y \<Longrightarrow> sort_key f (xs @ [y]) = sort_key f xs @ [y]"
  by (induction xs) (auto simp: insort_key_snoc)

lemma filter_unique_id:
  "distinct (map f xs) \<Longrightarrow> x \<in> set xs \<Longrightarrow> filter (\<lambda>y. f y = f x) xs = [x]"
proof (induction xs)
  case Nil
  then show ?case by simp
next
  case (Cons y ys)
  show ?case
  proof (cases "y = x")
    case True
    with Cons.prems have "f x \<notin> f ` set ys" by simp
    then have "\<forall>y \<in> set ys. f y \<noteq> f x" by (metis imageI)
    then have "filter (\<lambda>y. f y = f x) ys = []"
      by (simp add: filter_empty_conv)
    with True show ?thesis by simp
  next
    case False
    with Cons.prems have "x \<in> set ys" "f y \<noteq> f x" by auto
    with Cons show ?thesis by simp
  qed
qed

lemma author_names_links [simp]: "author_names (tx\<lparr>books_authors := ls\<rparr>) = author_names tx"
  by (rule ext) (simp add: author_names_def)

lemma seq_cong:
  "authors s' = authors s \<Longrightarrow> books_authors s' = books_authors s \<Longrightarrow>
   authors_in_link_order s' b = authors_in_link_order s b"
  by (simp add: authors_in_link_order_def author_names_def [abs_def])

lemma seq_add_author:
  assumes "aid \<notin> ba_author_id ` set (books_authors tx)"
  shows "authors_in_link_order (tx\<lparr>authors := authors tx @ [\<lparr>authors_id = aid, authors_name = a\<rparr>]\<rparr>) b
           = authors_in_link_order tx b"
proof -
  have "author_names (tx\<lparr>authors := authors tx @ [\<lparr>authors_id = aid, authors_name = a\<rparr>]\<rparr>) l = author_names tx l"
    if "l \<in> set (books_authors tx)" for l
    using that assms by (auto simp: author_names_def)
  then have "map (author_names (tx\<lparr>authors := authors tx @ [\<lparr>authors_id = aid, authors_name = a\<rparr>]\<rparr>))
        (sort_key ba_id (filter (\<lambda>l. ba_book_id l = b) (books_authors tx)))
      = map (author_names tx) (sort_key ba_id (filter (\<lambda>l. ba_book_id l = b) (books_authors tx)))"
    by (intro map_cong) auto
  then show ?thesis by (simp add: authors_in_link_order_def del: map_eq_conv)
qed

lemma seq_add_link_other:
  "b \<noteq> bk \<Longrightarrow>
   authors_in_link_order (tx\<lparr>books_authors := books_authors tx @
       [\<lparr>ba_id = i, ba_book_id = bk, ba_author_id = aid\<rparr>]\<rparr>) b = authors_in_link_order tx b"
  by (simp add: authors_in_link_order_def)

lemma seq_add_link_same:
  "authors_in_link_order (tx\<lparr>books_authors := books_authors tx @
       [\<lparr>ba_id = next_id (map ba_id (books_authors tx)), ba_book_id = bk, ba_author_id = aid\<rparr>]\<rparr>) bk
     = authors_in_link_order tx bk @ map authors_name (filter (\<lambda>a. authors_id a = aid) (authors tx))"
proof -
  let ?n = "\<lparr>ba_id = next_id (map ba_id (books_authors tx)), ba_book_id = bk, ba_author_id = aid\<rparr>"
  let ?old = "filter (\<lambda>l. ba_book_id l = bk) (books_authors tx)"
  have "\<forall>l \<in> set ?old. ba_id l \<le> ba_id ?n"
    using next_id_greater [of _ "map ba_id (books_authors tx)"] by fastforce
  then have "sort_key ba_id (?old @ [?n]) = sort_key ba_id ?old @ [?n]" by (rule sort_key_snoc)
  then show ?thesis by (simp add: authors_in_link_order_def author_names_def)
qed

lemma name_in_seq:
  "l \<in> set (books_authors tx) \<Longrightarrow> r \<in> set (authors tx) \<Longrightarrow> authors_id r = ba_author_id l \<Longrightarrow>
   authors_name r \<in> set (authors_in_link_order tx (ba_book_id l))"
  by (auto simp: authors_in_link_order_def author_names_def)

lemma extends_links_refl: "extends_links bk tx tx"
  by (auto simp: extends_links_def)

lemma extends_links_trans:
  "extends_links bk tx tx1 \<Longrightarrow> extends_links bk tx1 tx2 \<Longrightarrow> extends_links bk tx tx2"
  by (simp add: extends_links_def) blast

lemma link_author_new:
  assumes "no_faults e"
    and "\<not> (\<exists>l \<in> set (books_authors tx). ba_book_id l = bk \<and> ba_author_id l = aid)"
  shows "link_author e tx a bk aid = Inr (tx\<lparr>books_authors := books_authors tx @
      [\<lparr>ba_id = next_id (map ba_id (books_authors tx)), ba_book_id = bk, ba_author_id = aid\<rparr>]\<rparr>)"
  using assms by (auto simp: link_author_def)

lemma insertAuthor_step:
  assumes nf: "no_faults e" and ok: "authors_ok tx"
    and new: "a \<notin> set (authors_in_link_order tx (BookId book))"
  shows "\<exists>tx'. insertAuthor e tx a book = Inr tx' \<and> authors_ok tx'
           \<and> extends_links (BookId book) tx tx'
           \<and> authors_in_link_order tx' (BookId book) = authors_in_link_order tx (BookId book) @ [a]"
proof (cases "filter (\<lambda>r. authors_name r = a) (authors tx)")
  case Nil
  let ?aid = "next_id (map authors_id (authors tx))"
  let ?tx1 = "tx\<lparr>authors := authors tx @ [\<lparr>authors_id = ?aid, authors_name = a\<rparr>]\<rparr>"
  let ?tx2 = "?tx1\<lparr>books_authors := books_authors ?tx1 @
      [\<lparr>ba_id = next_id (map ba_id (books_authors ?tx1)), ba_book_id = BookId book, ba_author_id = ?aid\<rparr>]\<rparr>"
  have fresh: "?aid \<notin> authors_id ` set (authors tx)"
    using next_id_fresh [of "map authors_id (authors tx)"] by simp
  then have fresh': "\<forall>r \<in> set (authors tx). authors_id r \<noteq> ?aid" by (metis imageI)
  from fresh ok have unlinked: "?aid \<notin> ba_author_id ` set (books_authors tx)"
    by (auto simp: authors_ok_def)
  then have nolink: "\<not> (\<exists>l \<in> set (books_authors tx). ba_book_id l = BookId book \<and> ba_author_id l = ?aid)"
    by (metis imageI)
  have "link_author e ?tx1 a (BookId book) ?aid = Inr ?tx2"
    using nf nolink by (intro link_author_new) simp_all
  then have run: "insertAuthor e tx a book = Inr ?tx2"
    using nf Nil by (simp add: insertAuthor_def Let_def)
  have ok2: "authors_ok ?tx2" using ok fresh by (auto simp: authors_ok_def)
  have names: "map authors_name (filter (\<lambda>r. authors_id r = ?aid) (authors ?tx1)) = [a]"
    using fresh' by (simp add: filter_empty_conv)
  have same: "authors_in_link_order ?tx2 (BookId book) = authors_in_link_order tx (BookId book) @ [a]"
    using seq_add_link_same [of ?tx1 "BookId book" ?aid] names seq_add_author [OF unlinked, of a "BookId book"]
    by simp
  have other: "authors_in_link_order ?tx2 b = authors_in_link_order tx b" if "b \<noteq> BookId book" for b
    using seq_add_link_other [OF that, of ?tx1] seq_add_author [OF unlinked, of a b] by simp
  have "extends_links (BookId book) tx ?tx2"
    using other by (auto simp: extends_links_def)
  with run ok2 same show ?thesis by blast
next
  case (Cons r rest)
  let ?aid = "authors_id r"
  let ?tx2 = "tx\<lparr>books_authors := books_authors tx @
      [\<lparr>ba_id = next_id (map ba_id (books_authors tx)), ba_book_id = BookId book, ba_author_id = ?aid\<rparr>]\<rparr>"
  from Cons have "r \<in> set (filter (\<lambda>r. authors_name r = a) (authors tx))" by simp
  then have r: "r \<in> set (authors tx)" "authors_name r = a" by auto
  have nolink: "\<not> (\<exists>l \<in> set (books_authors tx). ba_book_id l = BookId book \<and> ba_author_id l = ?aid)"
  proof
    assume "\<exists>l \<in> set (books_authors tx). ba_book_id l = BookId book \<and> ba_author_id l = ?aid"
    then obtain l where l: "l \<in> set (books_authors tx)" "ba_book_id l = BookId book" "ba_author_id l = ?aid"
      by blast
    from name_in_seq [OF l(1) r(1)] l(2,3) r(2) new show False by simp
  qed
  have "link_author e tx a (BookId book) ?aid = Inr ?tx2"
    using nf nolink by (rule link_author_new)
  then have run: "insertAuthor e tx a book = Inr ?tx2"
    using nf Cons by (simp add: insertAuthor_def Let_def)
  have ok2: "authors_ok ?tx2" using ok r(1) by (auto simp: authors_ok_def)
  from ok have "distinct (map authors_id (authors tx))" by (simp add: authors_ok_def)
  from filter_unique_id [OF this r(1)] r(2)
  have names: "map authors_name (filter (\<lambda>x. authors_id x = ?aid) (authors tx)) = [a]" by simp
  have same: "authors_in_link_order ?tx2 (BookId book) = authors_in_link_order tx (BookId book) @ [a]"
    using seq_add_link_same [of tx "BookId book" ?aid] names by simp
  have other: "authors_in_link_order ?tx2 b = authors_in_link_order tx b" if "b \<noteq> BookId book" for b
    using seq_add_link_other [OF that, of tx] by simp
  have "extends_links (BookId book) tx ?tx2"
    using other by (auto simp: extends_links_def)
  with run ok2 same show ?thesis by blast
qed

lemma insertAuthors_chain:
  assumes "no_faults e" and "authors_ok tx" and "distinct as"
    and "set as \<inter> set (authors_in_link_order tx (BookId book)) = {}"
  shows "\<exists>tx'. insertAuthors e tx as book = Inr tx' \<and> authors_ok tx'
           \<and> extends_links (BookId book) tx tx'
           \<and> authors_in_link_order tx' (BookId book) = authors_in_link_order tx (BookId book) @ as"
  using assms(2-)
proof (induction as arbitrary: tx)
  case Nil
  then show ?case by (simp add: extends_links_refl)
next
  case (Cons a as)
  from Cons.prems have "a \<notin> set (authors_in_link_order tx (BookId book))" by auto
  from insertAuthor_step [OF assms(1) Cons.prems(1) this]
  obtain tx1 where tx1: "insertAuthor e tx a book = Inr tx1" "authors_ok tx1"
    "extends_links (BookId book) tx tx1"
    "authors_in_link_order tx1 (BookId book) = authors_in_link_order tx (BookId book) @ [a]"
    by blast
  from Cons.prems tx1(4) have "distinct as"
    "set as \<inter> set (authors_in_link_order tx1 (BookId book)) = {}" by auto
  from Cons.IH [OF tx1(2) this]
  obtain tx2 where tx2: "insertAuthors e tx1 as book = Inr tx2" "authors_ok tx2"
    "extends_links (BookId book) tx1 tx2"
    "authors_in_link_order tx2 (BookId book) = authors_in_link_order tx1 (BookId book) @ as"
    by blast
  from tx1 tx2 extends_links_trans [OF tx1(3) tx2(3)] show ?case by simp
qed

lemma insertTag_frame:
  assumes "no_faults e"
  shows "\<exists>tx'. insertTag e tx t bf = Inr tx' \<and> books tx' = books tx \<and> files tx' = files tx
           \<and> authors tx' = authors tx \<and> books_authors tx' = books_authors tx
           \<and> books_fts tx' = books_fts tx"
  using assms by (auto simp: insertTag_def link_tag_def Let_def split: list.splits)

lemma insertTags_frame:
  assumes "no_faults e"
  shows "\<exists>tx'. insertTags e tx ts bf = Inr tx' \<and> books tx' = books tx \<and> files tx' = files tx
           \<and> authors tx' = authors tx \<and> books_authors tx' = books_authors tx
           \<and> books_fts tx' = books_fts tx"
proof (induction ts arbitrary: tx)
  case Nil
  then show ?case by simp
next
  case (Cons t ts)
  from insertTag_frame [OF assms, of tx t bf] obtain tx1 where
    "insertTag e tx t bf = Inr tx1" "books tx1 = books tx" "files tx1 = files tx"
    "authors tx1 = authors tx" "books_authors tx1 = books_authors tx" "books_fts tx1 = books_fts tx"
    by blast
  with Cons [of tx1] show ?case by auto
qed

lemma filter_no_value: "v \<notin> f ` set xs \<Longrightarrow> filter (\<lambda>x. f x = v) xs = []"
proof -
  assume "v \<notin> f ` set xs"
  then have "\<forall>x \<in> set xs. f x \<noteq> v" by (metis imageI)
  then show ?thesis by (simp add: filter_empty_conv)
qed

lemma filter_some_value: "v \<in> f ` set xs \<Longrightarrow> filter (\<lambda>x. f x = v) xs \<noteq> []"
  by (auto simp: filter_empty_conv)

lemma docid_update:
  "docid ` set (map (\<lambda>r. if P r then r\<lparr>fts_tags := a, fts_extension := b, fts_source := c\<rparr> else r) ds)
     = docid ` set ds"
  by (induction ds) auto

lemma moveOrCopyFile_ok: "no_faults e \<Longrightarrow> length (Files book) = 1 \<Longrightarrow> moveOrCopyFile e book move = None"
  by (simp add: moveOrCopyFile_def moveFile_def copyFile_def)

lemma entries_title: "b \<in> set (entries_with_identity s title as) \<Longrightarrow> b \<in> books_id ` set (books s)"
  by (auto simp: entries_with_identity_def select_book_ids_by_title_def)

lemma entries_seq: "b \<in> set (entries_with_identity s title as) \<Longrightarrow> authors_in_link_order s b = as"
  by (auto simp: entries_with_identity_def)

lemma entries_cong:
  assumes "books s' = books s" and "\<forall>b \<in> books_id ` set (books s). authors_in_link_order s' b = authors_in_link_order s b"
  shows "entries_with_identity s' title as = entries_with_identity s title as"
  using assms
  by (auto simp: entries_with_identity_def select_book_ids_by_title_def intro!: filter_cong)

lemma ImportBook_found:
  assumes nf: "no_faults e" and wf: "wf_store s" and one: "Files book = [bf]"
    and fresh: "Hash bf \<notin> files_hash ` set (files s)"
    and res: "getBookIdByTitleAndAuthors e s (Title book) (Authors book) = Inr (b, True)"
    and b: "b \<in> books_id ` set (books s)"
  shows "\<exists>s' row. ImportBook e s book move = (None, s', Committed) \<and> wf_store s'
           \<and> files s' = files s @ [row] \<and> files_hash row = Hash bf \<and> files_book_id row = b
           \<and> books s' = books s \<and> authors s' = authors s \<and> books_authors s' = books_authors s"
proof -
  let ?book = "book\<lparr>BookId := b\<rparr>"
  let ?row = "\<lparr>files_id = next_id (map files_id (files s)), files_book_id = b, files_extension = Extension bf,
       files_original_filename = OriginalFilename bf, files_filename = CurrentFilename bf,
       files_file_size = FileSize bf, files_file_mtime = FileMtime bf, files_hash = Hash bf,
       files_regexp_name = RegexpName bf, files_source = Source bf\<rparr>"
  let ?tx2 = "s\<lparr>files := files s @ [?row]\<rparr>"
  have dup: "select_file_ids_by_hash s (Hash bf) = []"
    using fresh by (simp add: select_file_ids_by_hash_def filter_no_value)
  have entry: "resolve_entry e s book b True = Inr (?book, s)" by (simp add: resolve_entry_def)
  have ins: "insert_file e s ?book bf = Inr (next_id (map files_id (files s)), ?tx2)"
    using nf fresh by (simp add: insert_file_def Let_def)
  from insertTags_frame [OF nf, of ?tx2 "Tags bf" "bf\<lparr>FileId := next_id (map files_id (files s))\<rparr>"]
  obtain tx3 where tx3: "insertTags e ?tx2 (Tags bf) (bf\<lparr>FileId := next_id (map files_id (files s))\<rparr>) = Inr tx3"
    "books tx3 = books s" "files tx3 = files s @ [?row]" "authors tx3 = authors s"
    "books_authors tx3 = books_authors s" "books_fts tx3 = books_fts s"
    by auto
  from wf b have "b \<in> docid ` set (books_fts s)" by (simp add: wf_store_def)
  then have "filter (\<lambda>d. docid d = b) (books_fts s) \<noteq> []"
    by (rule filter_some_value)
  then obtain d ds where d: "filter (\<lambda>d. docid d = b) (books_fts s) = d # ds"
    by (cases "filter (\<lambda>d. docid d = b) (books_fts s)") auto
  let ?upd = "\<lambda>r. if docid r = docid d
       then r\<lparr>fts_tags := fts_tags d @ '' '' @ Join (Tags bf) '' '',
              fts_extension := fts_extension d @ '' '' @ Extension bf,
              fts_source := fts_source d @ '' '' @ Source bf\<rparr>
       else r"
  let ?tx4 = "tx3\<lparr>books_fts := map ?upd (books_fts s)\<rparr>"
  have index: "indexBookInSearch e tx3 ?book False = (None, ?tx4)"
    using nf one d tx3(6) by (simp add: indexBookInSearch_def Let_def)
  have tx: "import_tx e s book = Inr (?book, ?tx4)"
    using nf one dup res entry ins tx3(1) index by (simp add: import_tx_def Let_def)
  have run: "ImportBook e s book move = (None, ?tx4, Committed)"
    using nf one tx by (simp add: ImportBook_def moveOrCopyFile_ok)
  have "docid ` set (map ?upd (books_fts s)) = docid ` set (books_fts s)"
    by (rule docid_update)
  with wf tx3 have "wf_store ?tx4" by (simp add: wf_store_def)
  with run tx3 show ?thesis by (intro exI [of _ ?tx4] exI [of _ ?row]) simp
qed

lemma ImportBook_created:
  assumes nf: "no_faults e" and wf: "wf_store s" and one: "Files book = [bf]"
    and fresh: "Hash bf \<notin> files_hash ` set (files s)"
    and res: "getBookIdByTitleAndAuthors e s (Title book) (Authors book) = Inr (b0, False)"
    and d: "distinct (Authors book)"
  shows "\<exists>s' row. ImportBook e s book move = (None, s', Committed) \<and> wf_store s'
           \<and> files s' = files s @ [row] \<and> files_hash row = Hash bf
           \<and> files_book_id row = next_id (map books_id (books s))
           \<and> books s' = books s @ [\<lparr>books_id = next_id (map books_id (books s)),
                 books_series = Series book, books_title = Title book\<rparr>]
           \<and> authors_in_link_order s' (next_id (map books_id (books s))) = Authors book
           \<and> (\<forall>b. b \<noteq> next_id (map books_id (books s)) \<longrightarrow>
                 authors_in_link_order s' b = authors_in_link_order s b)"
proof -
  define newId where "newId = next_id (map books_id (books s))"
  define tx1 where "tx1 = s\<lparr>books := books s @
      [\<lparr>books_id = newId, books_series = Series book, books_title = Title book\<rparr>]\<rparr>"
  define book1 where "book1 = book\<lparr>BookId := newId\<rparr>"
  have new: "newId \<notin> books_id ` set (books s)"
    using next_id_fresh [of "map books_id (books s)"] by (simp add: newId_def)
  have dup: "select_file_ids_by_hash s (Hash bf) = []"
    using fresh by (simp add: select_file_ids_by_hash_def filter_no_value)
  have tx1_fields: "files tx1 = files s" "authors tx1 = authors s" "books_authors tx1 = books_authors s"
    "books_fts tx1 = books_fts s" "tags tx1 = tags s" "files_tags tx1 = files_tags s"
    "books tx1 = books s @ [\<lparr>books_id = newId, books_series = Series book, books_title = Title book\<rparr>]"
    by (simp_all add: tx1_def)
  have seq1: "authors_in_link_order tx1 b = authors_in_link_order s b" for b
    by (rule seq_cong) (simp_all add: tx1_fields)
  have ok1: "authors_ok tx1" using wf by (simp add: authors_ok_def wf_store_def tx1_fields)
  from wf new have "newId \<notin> ba_book_id ` set (books_authors s)" by (auto simp: wf_store_def)
  then have none: "authors_in_link_order s newId = []"
    by (simp add: authors_in_link_order_def filter_no_value)
  have book1: "BookId book1 = newId" "Authors book1 = Authors book" "Files book1 = [bf]"
    "Series book1 = Series book" "Title book1 = Title book"
    by (simp_all add: book1_def one)
  have "set (Authors book) \<inter> set (authors_in_link_order tx1 (BookId book1)) = {}"
    by (simp add: book1 seq1 none)
  from insertAuthors_chain [OF nf ok1 d this]
  obtain tx2 where tx2: "insertAuthors e tx1 (Authors book) book1 = Inr tx2" "authors_ok tx2"
    "extends_links newId tx1 tx2" "authors_in_link_order tx2 newId = Authors book"
    by (auto simp: book1 seq1 none)
  from tx2(3) have tx2_fields: "books tx2 = books tx1" "files tx2 = files s" "books_fts tx2 = books_fts s"
    and tx2_other: "\<And>b. b \<noteq> newId \<Longrightarrow> authors_in_link_order tx2 b = authors_in_link_order s b"
    and tx2_links: "ba_book_id ` set (books_authors tx2) \<subseteq> insert newId (ba_book_id ` set (books_authors s))"
    by (simp_all add: extends_links_def tx1_fields seq1)
  have entry: "resolve_entry e s book b0 False = Inr (book1, tx2)"
    using nf tx2(1) by (simp add: resolve_entry_def Let_def newId_def [symmetric] tx1_def [symmetric]
        book1_def [symmetric] book1)
  define row where "row = \<lparr>files_id = next_id (map files_id (files s)), files_book_id = newId,
       files_extension = Extension bf,
       files_original_filename = OriginalFilename bf, files_filename = CurrentFilename bf,
       files_file_size = FileSize bf, files_file_mtime = FileMtime bf, files_hash = Hash bf,
       files_regexp_name = RegexpName bf, files_source = Source bf\<rparr>"
  define tx3 where "tx3 = tx2\<lparr>files := files s @ [row]\<rparr>"
  have ins: "insert_file e tx2 book1 bf = Inr (next_id (map files_id (files s)), tx3)"
    using nf fresh by (simp add: insert_file_def Let_def tx2_fields book1 tx3_def row_def)
  from insertTags_frame [OF nf, of tx3 "Tags bf" "bf\<lparr>FileId := next_id (map files_id (files s))\<rparr>"]
  obtain tx4 where tx4: "insertTags e tx3 (Tags bf) (bf\<lparr>FileId := next_id (map files_id (files s))\<rparr>) = Inr tx4"
    "books tx4 = books tx1" "files tx4 = files s @ [row]" "authors tx4 = authors tx2"
    "books_authors tx4 = books_authors tx2" "books_fts tx4 = books_fts s"
    by (auto simp: tx3_def tx2_fields)
  define doc where "doc = \<lparr>docid = newId, fts_author = Join (Authors book) '' & '',
       fts_series = Series book, fts_title = Title book,
       fts_extension = Extension bf, fts_tags = Join (Tags bf) '' '', fts_source = Source bf\<rparr>"
  define tx5 where "tx5 = tx4\<lparr>books_fts := books_fts s @ [doc]\<rparr>"
  from wf new have nodoc: "newId \<notin> docid ` set (books_fts s)" by (simp add: wf_store_def)
  have index: "indexBookInSearch e tx4 book1 True = (None, tx5)"
    using nf nodoc by (simp add: indexBookInSearch_def Let_def book1 tx4 tx5_def doc_def)
  have tx: "import_tx e s book = Inr (book1, tx5)"
    using nf one dup res entry ins tx4(1) index by (simp add: import_tx_def Let_def)
  have run: "ImportBook e s book move = (None, tx5, Committed)"
    using nf one tx by (simp add: ImportBook_def moveOrCopyFile_ok book1)
  have fields5: "books tx5 = books tx1" "files tx5 = files s @ [row]" "authors tx5 = authors tx2"
    "books_authors tx5 = books_authors tx2" "books_fts tx5 = books_fts s @ [doc]"
    by (simp_all add: tx5_def tx4)
  have seq5: "authors_in_link_order tx5 b = authors_in_link_order tx2 b" for b
    by (rule seq_cong) (simp_all add: fields5)
  have wf5: "wf_store tx5"
  proof -
    from wf have "ba_book_id ` set (books_authors s) \<subseteq> books_id ` set (books s)"
      and docs: "docid ` set (books_fts s) = books_id ` set (books s)"
      by (simp_all add: wf_store_def)
    with tx2_links have "ba_book_id ` set (books_authors tx2) \<subseteq> insert newId (books_id ` set (books s))"
      by blast
    moreover have "docid doc = newId" by (simp add: doc_def)
    ultimately show ?thesis
      using tx2(2) docs by (simp add: wf_store_def authors_ok_def fields5 tx1_fields)
  qed
  have "files_hash row = Hash bf" "files_book_id row = newId" by (simp_all add: row_def)
  with run wf5 fields5 tx1_fields tx2(4) tx2_other seq5 show ?thesis
    unfolding newId_def [symmetric]
    by (intro exI [of _ tx5] exI [of _ row]) simp
qed

lemma ImportBook_ok:
  assumes nf: "no_faults e" and rp: "range_perm e" and wf: "wf_store s" and one: "Files book = [bf]"
    and fresh: "Hash bf \<notin> files_hash ` set (files s)"
    and d: "distinct (Authors book)" and ne: "Authors book \<noteq> []"
  shows "\<exists>s' row. ImportBook e s book move = (None, s', Committed) \<and> wf_store s'
           \<and> files s' = files s @ [row] \<and> files_hash row = Hash bf
           \<and> files_book_id row \<in> set (entries_with_identity s' (Title book) (Authors book))
           \<and> (\<forall>b \<in> books_id ` set (books s). authors_in_link_order s' b = authors_in_link_order s b)
           \<and> (if entries_with_identity s (Title book) (Authors book) = []
              then books s' = books s @ [\<lparr>books_id = files_book_id row,
                     books_series = Series book, books_title = Title book\<rparr>]
                \<and> files_book_id row \<notin> books_id ` set (books s)
              else books s' = books s
                \<and> files_book_id row \<in> set (entries_with_identity s (Title book) (Authors book)))"
proof -
  from getBookIdByTitleAndAuthors_found [OF nf rp ne, of s "Title book"]
  obtain b found where res: "getBookIdByTitleAndAuthors e s (Title book) (Authors book) = Inr (b, found)"
    and found: "found \<longleftrightarrow> entries_with_identity s (Title book) (Authors book) \<noteq> []"
    and b: "found \<longrightarrow> b \<in> set (entries_with_identity s (Title book) (Authors book))"
    by blast
  show ?thesis
  proof (cases found)
    case True
    with b have bin: "b \<in> set (entries_with_identity s (Title book) (Authors book))" by simp
    from True res have res': "getBookIdByTitleAndAuthors e s (Title book) (Authors book) = Inr (b, True)"
      by simp
    from ImportBook_found [OF nf wf one fresh res' entries_title [OF bin], of move]
    obtain s' row where s': "ImportBook e s book move = (None, s', Committed)" "wf_store s'"
      "files s' = files s @ [row]" "files_hash row = Hash bf" "files_book_id row = b"
      "books s' = books s" "authors s' = authors s" "books_authors s' = books_authors s"
      by blast
    have seq: "authors_in_link_order s' c = authors_in_link_order s c" for c
      using s'(7,8) by (rule seq_cong)
    then have "entries_with_identity s' (Title book) (Authors book)
        = entries_with_identity s (Title book) (Authors book)"
      using s'(6) by (intro entries_cong) simp_all
    with s' bin seq True found show ?thesis
      by (intro exI [of _ s'] exI [of _ row]) simp
  next
    case False
    with res have res': "getBookIdByTitleAndAuthors e s (Title book) (Authors book) = Inr (b, False)"
      by simp
    let ?new = "next_id (map books_id (books s))"
    from ImportBook_created [OF nf wf one fresh res' d, of move]
    obtain s' row where s': "ImportBook e s book move = (None, s', Committed)" "wf_store s'"
      "files s' = files s @ [row]" "files_hash row = Hash bf" "files_book_id row = ?new"
      "books s' = books s @ [\<lparr>books_id = ?new, books_series = Series book, books_title = Title book\<rparr>]"
      "authors_in_link_order s' ?new = Authors book"
      "\<forall>b. b \<noteq> ?new \<longrightarrow> authors_in_link_order s' b = authors_in_link_order s b"
      by blast
    have new: "?new \<notin> books_id ` set (books s)"
      using next_id_fresh [of "map books_id (books s)"] by simp
    have "?new \<in> set (entries_with_identity s' (Title book) (Authors book))"
      using s'(6,7) by (simp add: entries_with_identity_def select_book_ids_by_title_def)
    moreover have "\<forall>b \<in> books_id ` set (books s). authors_in_link_order s' b = authors_in_link_order s b"
      using s'(8) new by (metis)
    ultimately show ?thesis
      using s' new False found
      by (intro exI [of _ s'] exI [of _ row]) simp
  qed
qed

lemma entries_iff:
  "b \<in> set (entries_with_identity s title as) \<longleftrightarrow>
     (\<exists>r \<in> set (books s). books_id r = b \<and> books_title r = title) \<and> authors_in_link_order s b = as"
  by (auto simp: entries_with_identity_def select_book_ids_by_title_def)

lemma entries_nonempty_iff:
  "entries_with_identity s title as \<noteq> [] \<longleftrightarrow>
     (\<exists>r \<in> set (books s). books_title r = title \<and> authors_in_link_order s (books_id r) = as)"
proof
  assume "entries_with_identity s title as \<noteq> []"
  then obtain b where "b \<in> set (entries_with_identity s title as)"
    by (cases "entries_with_identity s title as") auto
  then show "\<exists>r \<in> set (books s). books_title r = title \<and> authors_in_link_order s (books_id r) = as"
    by (auto simp: entries_iff)
next
  assume "\<exists>r \<in> set (books s). books_title r = title \<and> authors_in_link_order s (books_id r) = as"
  then obtain r where "r \<in> set (books s)" "books_title r = title" "authors_in_link_order s (books_id r) = as"
    by blast
  then have "books_id r \<in> set (entries_with_identity s title as)" by (auto simp: entries_iff)
  then show "entries_with_identity s title as \<noteq> []" by auto
qed

lemma entries_after_import:
  assumes "length (entries_with_identity s title as) \<le> 1"
    and seq: "\<forall>b \<in> books_id ` set (books s). authors_in_link_order s' b = authors_in_link_order s b"
    and b: "b \<in> set (entries_with_identity s' title as)"
    and books: "if entries_with_identity s title as = []
       then books s' = books s @ [\<lparr>books_id = b, books_series = ser, books_title = title\<rparr>]
       else books s' = books s \<and> b \<in> set (entries_with_identity s title as)"
  shows "entries_with_identity s' title as = [b]"
proof -
  have old: "filter (\<lambda>b. authors_in_link_order s' b = as) (select_book_ids_by_title s title)
      = entries_with_identity s title as"
    unfolding entries_with_identity_def using seq
    by (intro filter_cong) (auto simp: select_book_ids_by_title_def)
  show ?thesis
  proof (cases "entries_with_identity s title as = []")
    case True
    with books have "select_book_ids_by_title s' title = select_book_ids_by_title s title @ [b]"
      by (simp add: select_book_ids_by_title_def)
    moreover from b have "authors_in_link_order s' b = as" by (simp add: entries_iff)
    ultimately show ?thesis using old True by (simp add: entries_with_identity_def)
  next
    case False
    with books have same: "books s' = books s" and bin: "b \<in> set (entries_with_identity s title as)"
      by simp_all
    from same have "select_book_ids_by_title s' title = select_book_ids_by_title s title"
      by (simp add: select_book_ids_by_title_def)
    then have "entries_with_identity s' title as = entries_with_identity s title as"
      using old by (simp add: entries_with_identity_def)
    moreover from assms(1) bin have "entries_with_identity s title as = [b]"
      by (cases "entries_with_identity s title as") auto
    ultimately show ?thesis by simp
  qed
qed

text \<open>
  The resolution for a list of authors that is not empty and names no author twice.
  In a run without failures: for a non-empty list of authors,
  \<^verbatim>\<open>getBookIdByTitleAndAuthors\<close> finds an entry if and only if a book with exactly the
  title has exactly these authors in the order of its links, and the identifier it
  returns is that of such a book. On a well-formed catalog, two imports of files with
  new, different hashes under one title both succeed; with the authors \<open>[A, B]\<close> and
  then \<open>[B, A]\<close>, \<open>A \<noteq> B\<close>, the two files belong to two different entries, one with
  each order (and two entries are created when no book had the title); with the same
  non-empty list of distinct authors, the second import creates no entry, its file
  belongs to an entry that had the identity before it, and to the entry of the first
  file when at most one entry had the identity at the start.
\<close>

lemma identity_by_title_and_author_order:
  assumes nf: "no_faults e" and rp: "range_perm e" and wf: "wf_store s"
    and one1: "Files book1 = [f1]" and one2: "Files book2 = [f2]" and title: "Title book2 = Title book1"
    and fresh1: "Hash f1 \<notin> files_hash ` set (files s)"
    and fresh2: "Hash f2 \<notin> files_hash ` set (files s)" and neq: "Hash f1 \<noteq> Hash f2"
    and run1: "ImportBook e s book1 move1 = (r1, s1, t1)"
    and run2: "ImportBook e s1 book2 move2 = (r2, s2, t2)"
  shows "(as \<noteq> [] \<longrightarrow>
           (\<exists>b found. getBookIdByTitleAndAuthors e s t as = Inr (b, found)
              \<and> (found \<longleftrightarrow> (\<exists>r \<in> set (books s). books_title r = t
                                  \<and> authors_in_link_order s (books_id r) = as))
              \<and> (found \<longrightarrow> (\<exists>r \<in> set (books s). books_id r = b \<and> books_title r = t)
                              \<and> authors_in_link_order s b = as)))
       \<and> (Authors book1 = [A, B] \<and> Authors book2 = [B, A] \<and> A \<noteq> B \<longrightarrow>
           (\<exists>row1 row2. r1 = None \<and> r2 = None \<and> files s2 = files s @ [row1, row2]
              \<and> files_hash row1 = Hash f1 \<and> files_hash row2 = Hash f2
              \<and> files_book_id row1 \<noteq> files_book_id row2
              \<and> files_book_id row1 \<in> set (entries_with_identity s2 (Title book1) [A, B])
              \<and> files_book_id row2 \<in> set (entries_with_identity s2 (Title book1) [B, A])
              \<and> (select_book_ids_by_title s (Title book1) = [] \<longrightarrow>
                    length (books s2) = length (books s) + 2)))
       \<and> (Authors book2 = Authors book1 \<and> Authors book1 \<noteq> [] \<and> distinct (Authors book1) \<longrightarrow>
           (\<exists>row1 row2. r1 = None \<and> r2 = None \<and> files s2 = files s @ [row1, row2]
              \<and> files_hash row1 = Hash f1 \<and> files_hash row2 = Hash f2
              \<and> books s2 = books s1
              \<and> files_book_id row2 \<in> set (entries_with_identity s1 (Title book1) (Authors book1))
              \<and> (length (entries_with_identity s (Title book1) (Authors book1)) \<le> 1 \<longrightarrow>
                    files_book_id row2 = files_book_id row1)))"
proof (intro conjI impI)
  assume "as \<noteq> []"
  from getBookIdByTitleAndAuthors_found [OF nf rp this, of s t]
  show "\<exists>b found. getBookIdByTitleAndAuthors e s t as = Inr (b, found)
      \<and> (found \<longleftrightarrow> (\<exists>r \<in> set (books s). books_title r = t \<and> authors_in_link_order s (books_id r) = as))
      \<and> (found \<longrightarrow> (\<exists>r \<in> set (books s). books_id r = b \<and> books_title r = t)
                      \<and> authors_in_link_order s b = as)"
    by (simp add: entries_nonempty_iff entries_iff)
next
  assume ab: "Authors book1 = [A, B] \<and> Authors book2 = [B, A] \<and> A \<noteq> B"
  then have d1: "distinct (Authors book1)" "Authors book1 \<noteq> []"
    and d2: "distinct (Authors book2)" "Authors book2 \<noteq> []" by auto
  from ImportBook_ok [OF nf rp wf one1 fresh1 d1, of move1] run1
  obtain row1 where 1: "r1 = None" "wf_store s1" "files s1 = files s @ [row1]" "files_hash row1 = Hash f1"
    "files_book_id row1 \<in> set (entries_with_identity s1 (Title book1) (Authors book1))"
    "\<forall>b \<in> books_id ` set (books s). authors_in_link_order s1 b = authors_in_link_order s b"
    "if entries_with_identity s (Title book1) (Authors book1) = []
     then books s1 = books s @ [\<lparr>books_id = files_book_id row1,
            books_series = Series book1, books_title = Title book1\<rparr>]
       \<and> files_book_id row1 \<notin> books_id ` set (books s)
     else books s1 = books s
       \<and> files_book_id row1 \<in> set (entries_with_identity s (Title book1) (Authors book1))"
    by auto
  from fresh2 neq 1(3,4) have fresh2': "Hash f2 \<notin> files_hash ` set (files s1)" by auto
  from ImportBook_ok [OF nf rp 1(2) one2 fresh2' d2, of move2] run2
  obtain row2 where 2: "r2 = None" "wf_store s2" "files s2 = files s1 @ [row2]" "files_hash row2 = Hash f2"
    "files_book_id row2 \<in> set (entries_with_identity s2 (Title book2) (Authors book2))"
    "\<forall>b \<in> books_id ` set (books s1). authors_in_link_order s2 b = authors_in_link_order s1 b"
    "if entries_with_identity s1 (Title book2) (Authors book2) = []
     then books s2 = books s1 @ [\<lparr>books_id = files_book_id row2,
            books_series = Series book2, books_title = Title book2\<rparr>]
       \<and> files_book_id row2 \<notin> books_id ` set (books s1)
     else books s2 = books s1
       \<and> files_book_id row2 \<in> set (entries_with_identity s1 (Title book2) (Authors book2))"
    by auto
  let ?b1 = "files_book_id row1" and ?b2 = "files_book_id row2"
  from entries_title [OF 1(5)] have b1in: "?b1 \<in> books_id ` set (books s1)" .
  from 1(5) have b1: "authors_in_link_order s1 ?b1 = [A, B]"
    and b1t: "\<exists>r \<in> set (books s1). books_id r = ?b1 \<and> books_title r = Title book1"
    using ab by (simp_all add: entries_iff)
  from bspec [OF 2(6) b1in] b1 have seq1: "authors_in_link_order s2 ?b1 = [A, B]" by simp
  from 2(5) ab title have seq2: "authors_in_link_order s2 ?b2 = [B, A]" by (simp add: entries_iff)
  from seq1 seq2 ab have diff: "?b1 \<noteq> ?b2" by auto
  have sub: "set (books s1) \<subseteq> set (books s2)" using 2(7) by (auto split: if_splits)
  with b1t seq1 have in1: "?b1 \<in> set (entries_with_identity s2 (Title book1) [A, B])"
    by (auto simp: entries_iff)
  from 2(5) ab title have in2: "?b2 \<in> set (entries_with_identity s2 (Title book1) [B, A])" by simp
  have count: "length (books s2) = length (books s) + 2" if "select_book_ids_by_title s (Title book1) = []"
  proof -
    from that have "entries_with_identity s (Title book1) (Authors book1) = []"
      by (simp add: entries_with_identity_def)
    with 1(7) have books1: "books s1 = books s @ [\<lparr>books_id = ?b1,
            books_series = Series book1, books_title = Title book1\<rparr>]" by simp
    with that have "select_book_ids_by_title s1 (Title book1) = [?b1]"
      by (simp add: select_book_ids_by_title_def)
    with b1 ab title have "entries_with_identity s1 (Title book2) (Authors book2) = []"
      by (auto simp: entries_with_identity_def)
    with 2(7) books1 show ?thesis by simp
  qed
  from 1 2 diff in1 in2 count
  show "\<exists>row1 row2. r1 = None \<and> r2 = None \<and> files s2 = files s @ [row1, row2]
      \<and> files_hash row1 = Hash f1 \<and> files_hash row2 = Hash f2
      \<and> files_book_id row1 \<noteq> files_book_id row2
      \<and> files_book_id row1 \<in> set (entries_with_identity s2 (Title book1) [A, B])
      \<and> files_book_id row2 \<in> set (entries_with_identity s2 (Title book1) [B, A])
      \<and> (select_book_ids_by_title s (Title book1) = [] \<longrightarrow> length (books s2) = length (books s) + 2)"
    by (intro exI [of _ row1] exI [of _ row2]) simp
next
  assume same: "Authors book2 = Authors book1 \<and> Authors book1 \<noteq> [] \<and> distinct (Authors book1)"
  then have d1: "distinct (Authors book1)" "Authors book1 \<noteq> []"
    and d2: "distinct (Authors book2)" "Authors book2 \<noteq> []" by auto
  from ImportBook_ok [OF nf rp wf one1 fresh1 d1, of move1] run1
  obtain row1 where 1: "r1 = None" "wf_store s1" "files s1 = files s @ [row1]" "files_hash row1 = Hash f1"
    "files_book_id row1 \<in> set (entries_with_identity s1 (Title book1) (Authors book1))"
    "\<forall>b \<in> books_id ` set (books s). authors_in_link_order s1 b = authors_in_link_order s b"
    "if entries_with_identity s (Title book1) (Authors book1) = []
     then books s1 = books s @ [\<lparr>books_id = files_book_id row1,
            books_series = Series book1, books_title = Title book1\<rparr>]
       \<and> files_book_id row1 \<notin> books_id ` set (books s)
     else books s1 = books s
       \<and> files_book_id row1 \<in> set (entries_with_identity s (Title book1) (Authors book1))"
    by auto
  from fresh2 neq 1(3,4) have fresh2': "Hash f2 \<notin> files_hash ` set (files s1)" by auto
  from ImportBook_ok [OF nf rp 1(2) one2 fresh2' d2, of move2] run2
  obtain row2 where 2: "r2 = None" "files s2 = files s1 @ [row2]" "files_hash row2 = Hash f2"
    "if entries_with_identity s1 (Title book2) (Authors book2) = []
     then books s2 = books s1 @ [\<lparr>books_id = files_book_id row2,
            books_series = Series book2, books_title = Title book2\<rparr>]
       \<and> files_book_id row2 \<notin> books_id ` set (books s1)
     else books s2 = books s1
       \<and> files_book_id row2 \<in> set (entries_with_identity s1 (Title book2) (Authors book2))"
    by auto
  from 1(5) same title have "entries_with_identity s1 (Title book2) (Authors book2) \<noteq> []" by auto
  with 2(4) same title have keep: "books s2 = books s1"
    and in2: "files_book_id row2 \<in> set (entries_with_identity s1 (Title book1) (Authors book1))"
    by simp_all
  have eq: "files_book_id row2 = files_book_id row1"
    if "length (entries_with_identity s (Title book1) (Authors book1)) \<le> 1"
  proof -
    from 1(7) have "if entries_with_identity s (Title book1) (Authors book1) = []
       then books s1 = books s @ [\<lparr>books_id = files_book_id row1,
              books_series = Series book1, books_title = Title book1\<rparr>]
       else books s1 = books s
         \<and> files_book_id row1 \<in> set (entries_with_identity s (Title book1) (Authors book1))"
      by (simp split: if_splits)
    from entries_after_import [OF that 1(6) 1(5) this] in2 show ?thesis by simp
  qed
  from 1 2 keep in2 eq
  show "\<exists>row1 row2. r1 = None \<and> r2 = None \<and> files s2 = files s @ [row1, row2]
      \<and> files_hash row1 = Hash f1 \<and> files_hash row2 = Hash f2
      \<and> books s2 = books s1
      \<and> files_book_id row2 \<in> set (entries_with_identity s1 (Title book1) (Authors book1))
      \<and> (length (entries_with_identity s (Title book1) (Authors book1)) \<le> 1 \<longrightarrow>
            files_book_id row2 = files_book_id row1)"
    by (intro exI [of _ row1] exI [of _ row2]) simp
qed

lemma wf_dune_store: "wf_store dune_store"
  by (simp add: wf_store_def dune_store_def)

lemma anon_store_eq: "anon_store =
  \<lparr>books = [\<lparr>books_id = 1, books_series = [], books_title = ''Beowulf''\<rparr>],
     files =
       [\<lparr>files_id = 1, files_book_id = 1, files_extension = ''epub'',
           files_original_filename = ''/in/dune.epub'',
           files_filename = ''Herbert/Dune.epub'', files_file_size = 100,
           files_file_mtime = 7, files_hash = ''h7'',
           files_regexp_name = ''default'', files_source = ''web''\<rparr>],
     authors = [], books_authors = [], tags = [], files_tags = [],
     books_fts =
       [\<lparr>docid = 1, fts_author = [], fts_series = [],
           fts_title = ''Beowulf'', fts_extension = ''epub'', fts_tags = [],
           fts_source = ''web''\<rparr>]\<rparr>"
  by (simp add: anon_store_def import_defs example_defs beowulf_def)

lemma twins_store_eq: "twins_store =
  \<lparr>books = [\<lparr>books_id = 1, books_series = [], books_title = ''Twins''\<rparr>],
     files =
       [\<lparr>files_id = 1, files_book_id = 1, files_extension = ''epub'',
           files_original_filename = ''/in/dune.epub'',
           files_filename = ''Herbert/Dune.epub'', files_file_size = 100,
           files_file_mtime = 7, files_hash = ''h8'',
           files_regexp_name = ''default'', files_source = ''web''\<rparr>],
     authors = [\<lparr>authors_id = 1, authors_name = ''Ann''\<rparr>],
     books_authors = [\<lparr>ba_id = 1, ba_book_id = 1, ba_author_id = 1\<rparr>],
     tags = [], files_tags = [],
     books_fts =
       [\<lparr>docid = 1, fts_author = ''Ann & Ann'', fts_series = [],
           fts_title = ''Twins'', fts_extension = ''epub'', fts_tags = [],
           fts_source = ''web''\<rparr>]\<rparr>"
  by (simp add: twins_store_def import_defs example_defs twins_def)

lemma identity_by_title_and_author_order_picnic:
  "getBookIdByTitleAndAuthors quiet dune_store ''Dune'' [''Frank Herbert''] = Inr (1, True)
   \<and> files_book_id (files picnic_reversed ! 1) \<noteq> files_book_id (files picnic_reversed ! 2)
   \<and> length (books picnic_reversed) = 3
   \<and> files_book_id (files picnic_again ! 2) = files_book_id (files picnic_again ! 1)
   \<and> books picnic_again = books picnic_store"
proof -
  let ?rev = "picnic\<lparr>Authors := [''Boris'', ''Arkady''], Files := [dune_epub\<lparr>Hash := ''h5'', Tags := []\<rparr>]\<rparr>"
  let ?pdf = "picnic\<lparr>Files := [dune_mobi\<lparr>Hash := ''h6'', Tags := []\<rparr>]\<rparr>"
  let ?r1 = "ImportBook quiet dune_store picnic False"
  let ?r2 = "ImportBook quiet picnic_store ?rev False"
  let ?r3 = "ImportBook quiet picnic_store ?pdf False"
  have files1: "Files picnic = [dune_epub\<lparr>Hash := ''h4'', Tags := []\<rparr>]" by (simp add: picnic_def)
  have files2: "Files ?rev = [dune_epub\<lparr>Hash := ''h5'', Tags := []\<rparr>]" by simp
  have files3: "Files ?pdf = [dune_mobi\<lparr>Hash := ''h6'', Tags := []\<rparr>]" by simp
  have t2: "Title ?rev = Title picnic" and t3: "Title ?pdf = Title picnic" by simp_all
  have fresh: "Hash (dune_epub\<lparr>Hash := ''h4'', Tags := []\<rparr>) \<notin> files_hash ` set (files dune_store)"
    "Hash (dune_epub\<lparr>Hash := ''h5'', Tags := []\<rparr>) \<notin> files_hash ` set (files dune_store)"
    "Hash (dune_mobi\<lparr>Hash := ''h6'', Tags := []\<rparr>) \<notin> files_hash ` set (files dune_store)"
    by (simp_all add: dune_store_def)
  have neq: "Hash (dune_epub\<lparr>Hash := ''h4'', Tags := []\<rparr>) \<noteq> Hash (dune_epub\<lparr>Hash := ''h5'', Tags := []\<rparr>)"
    "Hash (dune_epub\<lparr>Hash := ''h4'', Tags := []\<rparr>) \<noteq> Hash (dune_mobi\<lparr>Hash := ''h6'', Tags := []\<rparr>)"
    by simp_all
  have run1: "?r1 = (fst ?r1, picnic_store, snd (snd ?r1))" by (simp add: picnic_store_def)
  have run2: "?r2 = (fst ?r2, picnic_reversed, snd (snd ?r2))" by (simp add: picnic_reversed_def)
  have run3: "?r3 = (fst ?r3, picnic_again, snd (snd ?r3))" by (simp add: picnic_again_def)
  note rev = identity_by_title_and_author_order [OF quiet_ok wf_dune_store files1 files2 t2
      fresh(1,2) neq(1) run1 run2, of "[''Frank Herbert'']" "''Dune''" "''Arkady''" "''Boris''"]
  note pdf = identity_by_title_and_author_order [OF quiet_ok wf_dune_store files1 files3 t3
      fresh(1,3) neq(2) run1 run3, of "[''Frank Herbert'']" "''Dune''" "''Arkady''" "''Boris''"]
  have seq: "authors_in_link_order dune_store 1 = [''Frank Herbert'']"
    by (simp add: authors_in_link_order_def author_names_def dune_store_def)
  have books: "books dune_store = [\<lparr>books_id = 1, books_series = ''Dune'', books_title = ''Dune''\<rparr>]"
    and len: "length (files dune_store) = 1" by (simp_all add: dune_store_def)
  have none: "select_book_ids_by_title dune_store (Title picnic) = []"
    by (simp add: select_book_ids_by_title_def dune_store_def picnic_def)
  then have none': "entries_with_identity dune_store (Title picnic) (Authors picnic) = []"
    by (simp add: entries_with_identity_def)
  have authors: "Authors picnic = [''Arkady'', ''Boris'']" by (simp add: picnic_def)
  from rev [THEN conjunct1]
  have "\<exists>b found. getBookIdByTitleAndAuthors quiet dune_store ''Dune'' [''Frank Herbert''] = Inr (b, found)
      \<and> found \<and> (found \<longrightarrow> b = 1)"
    by (simp add: books seq) blast
  then have a: "getBookIdByTitleAndAuthors quiet dune_store ''Dune'' [''Frank Herbert''] = Inr (1, True)"
    by auto
  from rev [THEN conjunct2, THEN conjunct1] authors none
  obtain row1 row2 where "files picnic_reversed = files dune_store @ [row1, row2]"
    "files_book_id row1 \<noteq> files_book_id row2" "length (books picnic_reversed) = length (books dune_store) + 2"
    by auto
  then have b: "files_book_id (files picnic_reversed ! 1) \<noteq> files_book_id (files picnic_reversed ! 2)"
    "length (books picnic_reversed) = 3"
    by (simp_all add: nth_append len books)
  from pdf [THEN conjunct2, THEN conjunct2] authors none'
  obtain row1 row2 where "files picnic_again = files dune_store @ [row1, row2]"
    "files_book_id row2 = files_book_id row1" "books picnic_again = books picnic_store"
    by auto
  then have c: "files_book_id (files picnic_again ! 2) = files_book_id (files picnic_again ! 1)"
    "books picnic_again = books picnic_store"
    by (simp_all add: nth_append len)
  from a b c show ?thesis by simp
qed

text \<open>
  C2. The resolution misses an entry without authors, and an entry imported with an
  author named twice. The book \<^verbatim>\<open>Beowulf\<close> without authors is in the catalog, its
  author sequence is the empty list, and it is not found for the empty list: the loop
  over the map of authors visits only the books that have a link. A second import of
  the title with the same, empty list succeeds and creates a second entry, and two
  entries have the title and the empty author sequence. The book imported with the
  authors \<open>[Ann, Ann]\<close> has the one link \<open>[Ann]\<close> and is not found for \<open>[Ann, Ann]\<close>; a
  second import with the identical list creates a second entry, and two entries have
  the title and the author sequence \<open>[Ann]\<close>.
\<close>

theorem identity_lost_without_distinct_authors:
  "map books_title (books anon_store) = [''Beowulf'']
   \<and> authors_in_link_order anon_store 1 = []
   \<and> entries_with_identity anon_store ''Beowulf'' [] = [1]
   \<and> getBookIdByTitleAndAuthors quiet anon_store ''Beowulf'' [] = Inr (0, False)
   \<and> fst (ImportBook quiet anon_store (beowulf\<lparr>Files := [dune_mobi]\<rparr>) False) = None
   \<and> map files_book_id (files (fst (snd (ImportBook quiet anon_store
         (beowulf\<lparr>Files := [dune_mobi]\<rparr>) False)))) = [1, 2]
   \<and> entries_with_identity (fst (snd (ImportBook quiet anon_store
         (beowulf\<lparr>Files := [dune_mobi]\<rparr>) False))) ''Beowulf'' [] = [1, 2]
   \<and> authors_in_link_order twins_store 1 = [''Ann'']
   \<and> getBookIdByTitleAndAuthors quiet twins_store ''Twins'' [''Ann'', ''Ann''] = Inr (0, False)
   \<and> fst (ImportBook quiet twins_store (twins\<lparr>Files := [dune_mobi]\<rparr>) False) = None
   \<and> map files_book_id (files (fst (snd (ImportBook quiet twins_store
         (twins\<lparr>Files := [dune_mobi]\<rparr>) False)))) = [1, 2]
   \<and> entries_with_identity (fst (snd (ImportBook quiet twins_store
         (twins\<lparr>Files := [dune_mobi]\<rparr>) False))) ''Twins'' [''Ann''] = [1, 2]"
  by (simp add: anon_store_eq twins_store_eq import_defs example_defs beowulf_def twins_def
      authors_in_link_order_def entries_with_identity_def)

section \<open>Properties of the catalogs built by imports\<close>

text \<open>
  \<^verbatim>\<open>ImportBook\<close> keeps the index in agreement with the books, whatever fails in it:
  the authors, the tags and the file leave the books and the index as they are, a new
  book gets an identifier above those of the catalog, a new document is keyed by the
  identifier of its book, and an update keeps the keys.
\<close>

lemma link_author_index:
  "link_author e tx a b i = Inr tx' \<Longrightarrow> books tx' = books tx \<and> books_fts tx' = books_fts tx"
  by (auto simp: link_author_def split: if_splits)

lemma insertAuthor_index:
  assumes "insertAuthor e tx a book = Inr tx'"
  shows "books tx' = books tx \<and> books_fts tx' = books_fts tx"
proof (cases "map authors_id (filter (\<lambda>r. authors_name r = a) (authors tx))")
  case Nil
  with assms have "link_author e (tx\<lparr>authors := authors tx @
      [\<lparr>authors_id = next_id (map authors_id (authors tx)), authors_name = a\<rparr>]\<rparr>) a (BookId book)
      (next_id (map authors_id (authors tx))) = Inr tx'"
    by (simp add: insertAuthor_def Let_def split: if_splits)
  from link_author_index [OF this] show ?thesis by simp
next
  case (Cons i rest)
  with assms have "link_author e tx a (BookId book) i = Inr tx'"
    by (simp add: insertAuthor_def split: if_splits)
  then show ?thesis by (rule link_author_index)
qed

lemma insertAuthors_index:
  "insertAuthors e tx as book = Inr tx' \<Longrightarrow> books tx' = books tx \<and> books_fts tx' = books_fts tx"
proof (induction as arbitrary: tx)
  case Nil
  then show ?case by simp
next
  case (Cons a as)
  from Cons.prems obtain tx1 where a: "insertAuthor e tx a book = Inr tx1"
    and rest: "insertAuthors e tx1 as book = Inr tx'"
    by (auto split: sum.splits)
  from insertAuthor_index [OF a] Cons.IH [OF rest] show ?case by simp
qed

lemma link_tag_index:
  "link_tag e tx t f i = Inr tx' \<Longrightarrow> books tx' = books tx \<and> books_fts tx' = books_fts tx"
  by (auto simp: link_tag_def split: if_splits)

lemma insertTag_index:
  assumes "insertTag e tx t bf = Inr tx'"
  shows "books tx' = books tx \<and> books_fts tx' = books_fts tx"
proof (cases "map tags_id (filter (\<lambda>r. tags_name r = t) (tags tx))")
  case Nil
  with assms have "link_tag e (tx\<lparr>tags := tags tx @
      [\<lparr>tags_id = next_id (map tags_id (tags tx)), tags_name = t\<rparr>]\<rparr>) t (FileId bf)
      (next_id (map tags_id (tags tx))) = Inr tx'"
    by (simp add: insertTag_def Let_def split: if_splits)
  from link_tag_index [OF this] show ?thesis by simp
next
  case (Cons i rest)
  with assms have "link_tag e tx t (FileId bf) i = Inr tx'"
    by (simp add: insertTag_def split: if_splits)
  then show ?thesis by (rule link_tag_index)
qed

lemma insertTags_index:
  "insertTags e tx ts bf = Inr tx' \<Longrightarrow> books tx' = books tx \<and> books_fts tx' = books_fts tx"
proof (induction ts arbitrary: tx)
  case Nil
  then show ?case by simp
next
  case (Cons t ts)
  from Cons.prems obtain tx1 where a: "insertTag e tx t bf = Inr tx1"
    and rest: "insertTags e tx1 ts bf = Inr tx'"
    by (auto split: sum.splits)
  from insertTag_index [OF a] Cons.IH [OF rest] show ?case by simp
qed

lemma insert_file_index:
  "insert_file e tx book bf = Inr (i, tx') \<Longrightarrow> books tx' = books tx \<and> books_fts tx' = books_fts tx"
  by (auto simp: insert_file_def Let_def split: if_splits)

lemma resolve_entry_index:
  assumes "resolve_entry e tx book b found = Inr (book1, tx1)" and "index_consistent tx"
  shows "index_consistent tx1 \<and> (\<not> found \<longrightarrow> BookId book1 \<in> books_id ` set (books tx1))"
proof (cases found)
  case True
  with assms show ?thesis by (simp add: resolve_entry_def)
next
  case False
  let ?n = "next_id (map books_id (books tx))"
  let ?tx = "tx\<lparr>books := books tx @ [\<lparr>books_id = ?n, books_series = Series book, books_title = Title book\<rparr>]\<rparr>"
  from assms(1) False have b: "book1 = book\<lparr>BookId := ?n\<rparr>"
    and a: "insertAuthors e ?tx (Authors book) (book\<lparr>BookId := ?n\<rparr>) = Inr tx1"
    by (auto simp: resolve_entry_def Let_def split: if_splits sum.splits)
  from insertAuthors_index [OF a] have same: "books tx1 = books ?tx" "books_fts tx1 = books_fts tx"
    by simp_all
  have "?n \<notin> set (map books_id (books tx))" by (rule next_id_fresh)
  with assms(2) have "index_consistent tx1"
    unfolding index_consistent_def same by auto
  moreover have "BookId book1 \<in> books_id ` set (books tx1)"
    unfolding same b by simp
  ultimately show ?thesis by simp
qed

lemma indexBookInSearch_index:
  assumes "index_consistent tx" and "c \<longrightarrow> BookId book \<in> books_id ` set (books tx)"
  shows "index_consistent (snd (indexBookInSearch e tx book c))"
proof -
  let ?bf = "Files book ! 0"
  let ?rows = "filter (\<lambda>d. docid d = BookId book) (books_fts tx)"
  have upd: "index_consistent (tx\<lparr>books_fts := map (\<lambda>r. if docid r = k
                     then r\<lparr>fts_tags := x, fts_extension := y, fts_source := z\<rparr>
                     else r) (books_fts tx)\<rparr>)" for k x y z
  proof -
    have "map docid (map (\<lambda>r. if docid r = k
                     then r\<lparr>fts_tags := x, fts_extension := y, fts_source := z\<rparr>
                     else r) (books_fts tx)) = map docid (books_fts tx)"
      by (induction "books_fts tx") (auto simp: comp_def)
    moreover from this have "docid ` set (map (\<lambda>r. if docid r = k
                     then r\<lparr>fts_tags := x, fts_extension := y, fts_source := z\<rparr>
                     else r) (books_fts tx)) = docid ` set (books_fts tx)"
      by (metis set_map)
    ultimately show ?thesis using assms(1) by (simp add: index_consistent_def del: set_map map_map)
  qed
  have new: "index_consistent (tx\<lparr>books_fts := books_fts tx @ [d]\<rparr>)"
    if "docid d \<notin> set (map docid (books_fts tx))" "docid d \<in> books_id ` set (books tx)" for d
    using that assms(1) by (auto simp: index_consistent_def)
  show ?thesis
  proof (cases "iter e Fts_Rows ?rows")
    case (Pair ds t)
    show ?thesis
    proof (cases ds)
      case Nil
      with Pair assms new show ?thesis
        by (auto simp: indexBookInSearch_def Let_def)
    next
      case (Cons d rest)
      with Pair assms new upd show ?thesis
        by (auto simp: indexBookInSearch_def Let_def)
    qed
  qed
qed

lemma import_tx_index:
  assumes "import_tx e lib book = Inr (book1, tx)" and "index_consistent lib"
  shows "index_consistent tx"
proof -
  let ?bf = "Files book ! 0"
  from assms(1) obtain b found where "getBookIdByTitleAndAuthors e lib (Title book) (Authors book) = Inr (b, found)"
    by (auto simp: import_tx_def Let_def split: if_splits prod.splits list.splits bool.splits sum.splits)
  with assms(1) obtain bk tx1 i tx2 tx3 where
    r: "resolve_entry e lib book b found = Inr (bk, tx1)"
    and f: "insert_file e tx1 bk ?bf = Inr (i, tx2)"
    and t: "insertTags e tx2 (Tags ?bf) (?bf\<lparr>FileId := i\<rparr>) = Inr tx3"
    and x: "indexBookInSearch e tx3 bk (\<not> found) = (None, tx)"
    by (auto simp: import_tx_def Let_def split: if_splits prod.splits list.splits bool.splits sum.splits option.splits)
  from resolve_entry_index [OF r assms(2)]
  have c1: "index_consistent tx1" "\<not> found \<longrightarrow> BookId bk \<in> books_id ` set (books tx1)"
    by simp_all
  from insert_file_index [OF f] insertTags_index [OF t]
  have same: "books tx3 = books tx1" "books_fts tx3 = books_fts tx1" by simp_all
  with c1 have "index_consistent tx3" "\<not> found \<longrightarrow> BookId bk \<in> books_id ` set (books tx3)"
    by (simp_all add: index_consistent_def)
  from indexBookInSearch_index [OF this, of e] x show ?thesis by simp
qed

lemma ImportBook_index_consistent:
  assumes "index_consistent lib"
  shows "index_consistent (fst (snd (ImportBook e lib book move)))"
proof (cases "import_tx e lib book")
  case (Inl r)
  with assms show ?thesis by (cases r) (simp add: ImportBook_def)
next
  case (Inr r)
  obtain book1 tx where r: "r = (book1, tx)" by (cases r)
  from import_tx_index [OF Inr [unfolded r] assms] have "index_consistent tx" .
  with assms Inr r show ?thesis by (simp add: ImportBook_def split: option.splits)
qed

lemma empty_store_index_consistent: "index_consistent empty_store"
  by (simp add: index_consistent_def empty_store_def)

lemma built_index_consistent: "built lib \<Longrightarrow> index_consistent lib"
  by (induction rule: built.induct) (simp_all add: empty_store_index_consistent ImportBook_index_consistent)

section \<open>Properties of the unique name\<close>

lemma ext_from_end_suffix:
  "ext_from_end cs acc = [] \<or> (\<exists>pre. rev cs @ acc = pre @ ext_from_end cs acc)"
proof (induction cs arbitrary: acc)
  case Nil
  then show ?case by simp
next
  case (Cons c cs)
  show ?case
  proof (cases "c = CHR ''/''")
    case True
    then show ?thesis by simp
  next
    case False
    show ?thesis
    proof (cases "c = CHR ''.''")
      case True
      with False show ?thesis by simp
    next
      case dot: False
      from Cons.IH [of "c # acc"] False dot show ?thesis by simp
    qed
  qed
qed

lemma TrimSuffix_append: "TrimSuffix (pre @ e) e = pre"
  by (simp add: TrimSuffix_def)

lemma TrimSuffix_Ext: "TrimSuffix f (Ext f) @ Ext f = f"
proof (cases "Ext f = []")
  case True
  then show ?thesis by (simp add: TrimSuffix_def)
next
  case False
  with ext_from_end_suffix [of "rev f" "[]"] obtain pre where f: "f = pre @ Ext f"
    by (auto simp: Ext_def)
  have "TrimSuffix (pre @ Ext f) (Ext f) = pre" by (rule TrimSuffix_append)
  with f have "TrimSuffix f (Ext f) = pre" by simp
  with f show ?thesis by simp
qed

lemma probe_first_free:
  "\<exists>k\<ge>i. probe fs f ext i = candidate f ext k \<and> candidate f ext k \<notin> set fs
      \<and> (\<forall>j. i \<le> j \<and> j < k \<longrightarrow> candidate f ext j \<in> set fs)"
proof (induction fs f ext i rule: probe.induct)
  case (1 fs f ext i)
  show ?case
  proof (cases "candidate f ext i \<in> set fs")
    case True
    from 1 [OF True] obtain k where k: "i + 1 \<le> k" "probe fs f ext (i + 1) = candidate f ext k"
      "candidate f ext k \<notin> set fs" "\<forall>j. i + 1 \<le> j \<and> j < k \<longrightarrow> candidate f ext j \<in> set fs"
      by blast
    have "\<forall>j. i \<le> j \<and> j < k \<longrightarrow> candidate f ext j \<in> set fs"
    proof (intro allI impI)
      fix j assume "i \<le> j \<and> j < k"
      then show "candidate f ext j \<in> set fs"
        using True k(4) by (cases "j = i") auto
    qed
    with k True show ?thesis
      by (intro exI [of _ k]) (simp add: probe.simps [of fs f ext i])
  next
    case False
    then show ?thesis by (intro exI [of _ i]) (auto simp: probe.simps [of fs f ext i])
  qed
qed

text \<open>
  C9. \<^verbatim>\<open>GetUniqueName\<close> returns the path when \<^verbatim>\<open>os.Stat\<close> finds nothing there.
  Otherwise it returns the first of the names with \<^verbatim>\<open>" (1)"\<close>, \<^verbatim>\<open>" (2)"\<close>, ... put
  before the extension at which \<^verbatim>\<open>os.Stat\<close> finds nothing: all the names before it
  are taken. The path is its part before the extension followed by the extension.
\<close>

theorem GetUniqueName_first_free:
  "(f \<notin> set fs \<longrightarrow> GetUniqueName fs f = f)
   \<and> (f \<in> set fs \<longrightarrow>
        (\<exists>k\<ge>1. GetUniqueName fs f = TrimSuffix f (Ext f) @ '' ('' @ Itoa k @ '')'' @ Ext f
           \<and> GetUniqueName fs f \<notin> set fs
           \<and> (\<forall>j. 1 \<le> j \<and> j < k \<longrightarrow> TrimSuffix f (Ext f) @ '' ('' @ Itoa j @ '')'' @ Ext f \<in> set fs)))
   \<and> TrimSuffix f (Ext f) @ Ext f = f"
proof (intro conjI impI)
  show "f \<notin> set fs \<Longrightarrow> GetUniqueName fs f = f" by (simp add: GetUniqueName_def)
  show "TrimSuffix f (Ext f) @ Ext f = f" by (rule TrimSuffix_Ext)
  assume "f \<in> set fs"
  then have eq: "GetUniqueName fs f = probe fs f (Ext f) 1" by (simp add: GetUniqueName_def)
  from probe_first_free [of 1 fs f "Ext f"]
  obtain k where k: "1 \<le> k" "probe fs f (Ext f) 1 = candidate f (Ext f) k"
    "candidate f (Ext f) k \<notin> set fs"
    "\<forall>j. 1 \<le> j \<and> j < k \<longrightarrow> candidate f (Ext f) j \<in> set fs"
    by blast
  have "GetUniqueName fs f = TrimSuffix f (Ext f) @ '' ('' @ Itoa k @ '')'' @ Ext f"
    using eq k(2) by (simp add: candidate_def)
  moreover have "GetUniqueName fs f \<notin> set fs" using eq k(2,3) by simp
  moreover have "\<forall>j. 1 \<le> j \<and> j < k \<longrightarrow> TrimSuffix f (Ext f) @ '' ('' @ Itoa j @ '')'' @ Ext f \<in> set fs"
    using k(4) by (simp add: candidate_def)
  ultimately show "\<exists>k\<ge>1. GetUniqueName fs f = TrimSuffix f (Ext f) @ '' ('' @ Itoa k @ '')'' @ Ext f
           \<and> GetUniqueName fs f \<notin> set fs
           \<and> (\<forall>j. 1 \<le> j \<and> j < k \<longrightarrow> TrimSuffix f (Ext f) @ '' ('' @ Itoa j @ '')'' @ Ext f \<in> set fs)"
    using k(1) by blast
qed

lemma Ext_book: "Ext ''book.epub'' = ''.epub''" "TrimSuffix ''book.epub'' ''.epub'' = ''book''"
  by (simp_all add: Ext_def TrimSuffix_def)

lemma Itoa_small: "Itoa 1 = ''1''" "Itoa (Suc 0) = ''1''" "Itoa 2 = ''2''"
  by (simp_all add: Itoa.simps)

theorem GetUniqueName_first_free_witness:
  "GetUniqueName [''book.epub'', ''book (1).epub''] ''book.epub'' = ''book (2).epub''
   \<and> GetUniqueName [''book (1).epub''] ''book.epub'' = ''book.epub''"
proof -
  let ?fs = "[''book.epub'', ''book (1).epub'']"
  from GetUniqueName_first_free [of "''book.epub''" ?fs]
  obtain k where k: "1 \<le> k" "GetUniqueName ?fs ''book.epub'' = ''book'' @ '' ('' @ Itoa k @ '')'' @ ''.epub''"
    "GetUniqueName ?fs ''book.epub'' \<notin> set ?fs"
    "\<forall>j. 1 \<le> j \<and> j < k \<longrightarrow> ''book'' @ '' ('' @ Itoa j @ '')'' @ ''.epub'' \<in> set ?fs"
    by (auto simp: Ext_book)
  have "k \<noteq> 1" using k(2,3) by (auto simp: Itoa_small)
  moreover have "\<not> 2 < k" using k(4) by (auto simp: Itoa_small dest!: spec [of _ 2])
  ultimately have "k = 2" using k(1) by arith
  with k(2) have "GetUniqueName ?fs ''book.epub'' = ''book (2).epub''" by (simp add: Itoa_small)
  moreover have "GetUniqueName [''book (1).epub''] ''book.epub'' = ''book.epub''"
    using GetUniqueName_first_free [of "''book.epub''" "[''book (1).epub'']"] by simp
  ultimately show ?thesis by simp
qed

end
